theory Spec2Isabelle
  imports Complex_Main
begin

text \<open>
  A model of the capsule layers of \<^verbatim>\<open>src/models/layers/capsule_utils.py\<close>: the squash
  non-linearity \<^verbatim>\<open>_squash\<close>, \<^verbatim>\<open>_leaky_routing\<close>, the routing engine
  \<^verbatim>\<open>_update_routing\<close> with its loop body, and the fully connected layer \<^verbatim>\<open>capsule\<close>.
  The TensorFlow operations they call are modelled on tensors of any rank, so that the
  routing engine is the one function for the rank 4 votes of a fully connected layer and the
  rank 6 votes of \<^verbatim>\<open>conv_slim_capsule\<close>; the convolution of the latter is not modelled.
\<close>

section \<open>Tensor elements\<close>

text \<open>
  The layers compute on float32
  tensors. An element is modelled as a real number or one of the three special values of
  IEEE 754. Arithmetic on finite values is exact real arithmetic: rounding, overflow and
  underflow are not modelled. The special values follow IEEE 754; zero carries no sign and a
  zero divisor counts as \<open>+0\<close> (the only divisor of the code that can vanish is a norm,
  the square root of a sum of squares).
\<close>

datatype fl = Fin real | PInf | NInf | NaN

fun fadd :: "fl \<Rightarrow> fl \<Rightarrow> fl" where
  "fadd (Fin a) (Fin b) = Fin (a + b)"
| "fadd NaN _ = NaN"
| "fadd _ NaN = NaN"
| "fadd PInf NInf = NaN"
| "fadd NInf PInf = NaN"
| "fadd PInf _ = PInf"
| "fadd _ PInf = PInf"
| "fadd NInf _ = NInf"
| "fadd _ NInf = NInf"

fun fmul :: "fl \<Rightarrow> fl \<Rightarrow> fl" where
  "fmul (Fin a) (Fin b) = Fin (a * b)"
| "fmul NaN _ = NaN"
| "fmul _ NaN = NaN"
| "fmul PInf (Fin b) = (if b = 0 then NaN else if 0 < b then PInf else NInf)"
| "fmul NInf (Fin b) = (if b = 0 then NaN else if 0 < b then NInf else PInf)"
| "fmul (Fin a) PInf = (if a = 0 then NaN else if 0 < a then PInf else NInf)"
| "fmul (Fin a) NInf = (if a = 0 then NaN else if 0 < a then NInf else PInf)"
| "fmul PInf PInf = PInf"
| "fmul PInf NInf = NInf"
| "fmul NInf PInf = NInf"
| "fmul NInf NInf = PInf"

fun fdiv :: "fl \<Rightarrow> fl \<Rightarrow> fl" where
  "fdiv (Fin a) (Fin b) =
     (if b = 0 then (if a = 0 then NaN else if 0 < a then PInf else NInf) else Fin (a / b))"
| "fdiv NaN _ = NaN"
| "fdiv _ NaN = NaN"
| "fdiv (Fin a) PInf = Fin 0"
| "fdiv (Fin a) NInf = Fin 0"
| "fdiv PInf (Fin b) = (if 0 \<le> b then PInf else NInf)"
| "fdiv NInf (Fin b) = (if 0 \<le> b then NInf else PInf)"
| "fdiv PInf PInf = NaN"
| "fdiv PInf NInf = NaN"
| "fdiv NInf PInf = NaN"
| "fdiv NInf NInf = NaN"

fun fsqrt :: "fl \<Rightarrow> fl" where
  "fsqrt (Fin a) = (if a < 0 then NaN else Fin (sqrt a))"
| "fsqrt PInf = PInf"
| "fsqrt NInf = NaN"
| "fsqrt NaN = NaN"

fun fexp :: "fl \<Rightarrow> fl" where
  "fexp (Fin a) = Fin (exp a)"
| "fexp PInf = PInf"
| "fexp NInf = Fin 0"
| "fexp NaN = NaN"

text \<open>
  The sum of a list of elements, as \<^verbatim>\<open>tf.reduce_sum\<close> forms it along an axis. TensorFlow
  does not fix the order of the additions; with exact arithmetic it does not matter.
\<close>

primrec fsum :: "fl list \<Rightarrow> fl" where
  "fsum [] = Fin 0"
| "fsum (x # xs) = fadd x (fsum xs)"

fun is_fin :: "fl \<Rightarrow> bool" where
  "is_fin (Fin a) = True"
| "is_fin _ = False"

fun fin_val :: "fl \<Rightarrow> real" where
  "fin_val (Fin a) = a"
| "fin_val _ = 0"

section \<open>Errors\<close>

text \<open>
  \<open>IndexError\<close> is Python's exception of that name and \<open>ShapeError\<close> is the
  \<^verbatim>\<open>ValueError\<close> of a TensorFlow operation whose operand shapes do not fit; both are
  raised while the graph is built. \<open>TensorArrayError\<close> is the error of a
  \<^verbatim>\<open>TensorArray\<close> created with a negative size or accessed outside its bounds or at
  an element never written; it is raised when the graph is run.
\<close>

datatype error = IndexError | ShapeError | TensorArrayError

definition ebind :: "error + 'a \<Rightarrow> ('a \<Rightarrow> error + 'b) \<Rightarrow> error + 'b" where
  "ebind m f = (case m of Inl e \<Rightarrow> Inl e | Inr x \<Rightarrow> f x)"

section \<open>Tensors\<close>

text \<open>
  A tensor is its shape and its elements in row-major order. Every operation below builds
  its result by tabulating an index function over all indices of the result's shape, so
  that elements are only ever read at indices inside the operand's shape.
\<close>

datatype tensor = Tensor (shape: "nat list") (data: "fl list")

fun all_indices :: "nat list \<Rightarrow> nat list list" where
  "all_indices [] = [[]]"
| "all_indices (n # ns) = concat (map (\<lambda>i. map ((#) i) (all_indices ns)) [0..<n])"

fun flat_index :: "nat list \<Rightarrow> nat list \<Rightarrow> nat" where
  "flat_index (n # ns) (i # is) = i * prod_list ns + flat_index ns is"
| "flat_index _ _ = 0"

definition valid_index :: "nat list \<Rightarrow> nat list \<Rightarrow> bool" where
  "valid_index sh idx = list_all2 (<) idx sh"

definition well_formed :: "tensor \<Rightarrow> bool" where
  "well_formed t = (length (data t) = prod_list (shape t))"

definition tget :: "tensor \<Rightarrow> nat list \<Rightarrow> fl" where
  "tget t idx = data t ! flat_index (shape t) idx"

definition tabulate :: "nat list \<Rightarrow> (nat list \<Rightarrow> fl) \<Rightarrow> tensor" where
  "tabulate sh f = Tensor sh (map f (all_indices sh))"

definition scalar :: "fl \<Rightarrow> tensor" where
  "scalar x = Tensor [] [x]"

subsection \<open>Broadcasting element-wise operations\<close>

definition pad_shape :: "nat \<Rightarrow> nat list \<Rightarrow> nat list" where
  "pad_shape n sh = replicate (n - length sh) 1 @ sh"

definition broadcast_shape :: "nat list \<Rightarrow> nat list \<Rightarrow> nat list option" where
  "broadcast_shape sa sb =
     (let n = max (length sa) (length sb); pa = pad_shape n sa; pb = pad_shape n sb
      in if list_all2 (\<lambda>x y. x = y \<or> x = 1 \<or> y = 1) pa pb
         then Some (map2 (\<lambda>x y. if x = 1 then y else x) pa pb)
         else None)"

definition broadcast_index :: "nat list \<Rightarrow> nat list \<Rightarrow> nat list" where
  "broadcast_index sh idx =
     map2 (\<lambda>d i. if d = 1 then 0 else i) sh (drop (length idx - length sh) idx)"

definition binop :: "(fl \<Rightarrow> fl \<Rightarrow> fl) \<Rightarrow> tensor \<Rightarrow> tensor \<Rightarrow> error + tensor" where
  "binop f a b =
     (case broadcast_shape (shape a) (shape b) of
        None \<Rightarrow> Inl ShapeError
      | Some sh \<Rightarrow>
          Inr (tabulate sh (\<lambda>idx. f (tget a (broadcast_index (shape a) idx))
                                    (tget b (broadcast_index (shape b) idx)))))"

definition tadd :: "tensor \<Rightarrow> tensor \<Rightarrow> error + tensor" where
  "tadd = binop fadd"

definition tmul :: "tensor \<Rightarrow> tensor \<Rightarrow> error + tensor" where
  "tmul = binop fmul"

definition tdiv :: "tensor \<Rightarrow> tensor \<Rightarrow> error + tensor" where
  "tdiv = binop fdiv"

definition tsqrt :: "tensor \<Rightarrow> tensor" where
  "tsqrt t = tabulate (shape t) (\<lambda>idx. fsqrt (tget t idx))"

subsection \<open>The TensorFlow operations the layers use\<close>

definition insert_at :: "nat \<Rightarrow> 'a \<Rightarrow> 'a list \<Rightarrow> 'a list" where
  "insert_at k x xs = take k xs @ x # drop k xs"

definition remove_at :: "nat \<Rightarrow> 'a list \<Rightarrow> 'a list" where
  "remove_at k xs = take k xs @ drop (Suc k) xs"

text \<open>\<^verbatim>\<open>tf.fill(dims, value)\<close> and \<^verbatim>\<open>tf.zeros_like(tensor)\<close>.\<close>

definition fill :: "nat list \<Rightarrow> fl \<Rightarrow> tensor" where
  "fill dims v = tabulate dims (\<lambda>idx. v)"

definition zeros_like :: "tensor \<Rightarrow> tensor" where
  "zeros_like t = tabulate (shape t) (\<lambda>idx. Fin 0)"

text \<open>\<^verbatim>\<open>tf.reduce_sum(t, axis, keep_dims)\<close> for one non-negative axis.\<close>

definition reduce_sum :: "tensor \<Rightarrow> nat \<Rightarrow> bool \<Rightarrow> error + tensor" where
  "reduce_sum t axis keep_dims =
     (if axis < length (shape t)
      then Inr (if keep_dims
                then tabulate ((shape t)[axis := 1])
                       (\<lambda>idx. fsum (map (\<lambda>k. tget t (idx[axis := k])) [0..<shape t ! axis]))
                else tabulate (remove_at axis (shape t))
                       (\<lambda>idx. fsum (map (\<lambda>k. tget t (insert_at axis k idx)) [0..<shape t ! axis])))
      else Inl ShapeError)"

text \<open>
  \<^verbatim>\<open>tf.norm(t, axis, keep_dims)\<close> with the default Euclidean order: the square root of
  the sum of the squares along the axis.
\<close>

definition norm_t :: "tensor \<Rightarrow> nat \<Rightarrow> bool \<Rightarrow> error + tensor" where
  "norm_t t axis keep_dims =
     ebind (tmul t t) (\<lambda>squares.
     ebind (reduce_sum squares axis keep_dims) (\<lambda>total.
     Inr (tsqrt total)))"

text \<open>\<^verbatim>\<open>tf.nn.softmax(logits, dim)\<close>: \<open>exp(logits) / reduce_sum(exp(logits), dim)\<close>.\<close>

definition softmax :: "tensor \<Rightarrow> nat \<Rightarrow> error + tensor" where
  "softmax logits axis =
     (if axis < length (shape logits)
      then Inr (tabulate (shape logits)
                  (\<lambda>idx. fdiv (fexp (tget logits idx))
                            (fsum (map (\<lambda>k. fexp (tget logits (idx[axis := k])))
                                       [0..<shape logits ! axis]))))
      else Inl ShapeError)"

text \<open>\<^verbatim>\<open>tf.concat([a, b], axis)\<close> of two tensors.\<close>

definition concat_t :: "tensor \<Rightarrow> tensor \<Rightarrow> nat \<Rightarrow> error + tensor" where
  "concat_t a b axis =
     (if axis < length (shape a) \<and> (shape a)[axis := 0] = (shape b)[axis := 0]
      then Inr (tabulate ((shape a)[axis := shape a ! axis + shape b ! axis])
                  (\<lambda>idx. if idx ! axis < shape a ! axis then tget a idx
                         else tget b (idx[axis := idx ! axis - shape a ! axis])))
      else Inl ShapeError)"

text \<open>
  \<^verbatim>\<open>tf.split(value, [n1, n2], axis)\<close> into two parts of the given sizes, which must add
  up to the size of the axis.
\<close>

definition split_t :: "tensor \<Rightarrow> nat \<Rightarrow> nat \<Rightarrow> nat \<Rightarrow> error + tensor \<times> tensor" where
  "split_t t n1 n2 axis =
     (if axis < length (shape t) \<and> n1 + n2 = shape t ! axis
      then Inr (tabulate ((shape t)[axis := n1]) (\<lambda>idx. tget t idx),
                tabulate ((shape t)[axis := n2]) (\<lambda>idx. tget t (idx[axis := idx ! axis + n1])))
      else Inl ShapeError)"

text \<open>
  \<^verbatim>\<open>tf.transpose(t, perm)\<close>: axis \<open>m\<close> of the result is axis \<open>perm ! m\<close> of \<open>t\<close>.
\<close>

fun index_of :: "nat list \<Rightarrow> nat \<Rightarrow> nat" where
  "index_of [] k = 0"
| "index_of (p # ps) k = (if p = k then 0 else Suc (index_of ps k))"

definition is_perm :: "nat list \<Rightarrow> nat \<Rightarrow> bool" where
  "is_perm perm n = (length perm = n \<and> list_all (\<lambda>k. k \<in> set perm) [0..<n])"

definition transpose_t :: "tensor \<Rightarrow> nat list \<Rightarrow> error + tensor" where
  "transpose_t t perm =
     (if is_perm perm (length (shape t))
      then Inr (tabulate (map (\<lambda>p. shape t ! p) perm)
                  (\<lambda>idx. tget t (map (\<lambda>k. idx ! index_of perm k) [0..<length (shape t)])))
      else Inl ShapeError)"

text \<open>
  \<^verbatim>\<open>tf.expand_dims(t, axis)\<close>; a negative axis counts from the end, \<open>-1\<close> appending
  the new axis.
\<close>

definition expand_dims :: "tensor \<Rightarrow> int \<Rightarrow> error + tensor" where
  "expand_dims t axis =
     (let r = int (length (shape t)); a = (if axis < 0 then r + 1 + axis else axis)
      in if 0 \<le> a \<and> a \<le> r
         then Inr (tabulate (insert_at (nat a) 1 (shape t)) (\<lambda>idx. tget t (remove_at (nat a) idx)))
         else Inl ShapeError)"

text \<open>\<^verbatim>\<open>tf.tile(t, multiples)\<close>.\<close>

definition tile :: "tensor \<Rightarrow> nat list \<Rightarrow> error + tensor" where
  "tile t multiples =
     (if length multiples = length (shape t)
      then Inr (tabulate (map2 (*) (shape t) multiples)
                  (\<lambda>idx. tget t (map2 (\<lambda>i d. i mod d) idx (shape t))))
      else Inl ShapeError)"

text \<open>
  \<^verbatim>\<open>tf.reshape(t, [-1] + dims)\<close>: the elements keep their row-major order and the
  leading size is inferred, which TensorFlow refuses when the given sizes multiply to zero
  or do not divide the number of elements.
\<close>

definition reshape_infer :: "tensor \<Rightarrow> nat list \<Rightarrow> error + tensor" where
  "reshape_infer t dims =
     (let known = prod_list dims; total = prod_list (shape t)
      in if known = 0 \<or> total mod known \<noteq> 0 then Inl ShapeError
         else Inr (Tensor ((total div known) # dims) (data t)))"

text \<open>
  A \<^verbatim>\<open>tf.TensorArray\<close> of fixed size: a slot holds the tensor written to it, if any.
\<close>

type_synonym tensor_array = "tensor option list"

definition ta_new :: "int \<Rightarrow> error + tensor_array" where
  "ta_new n = (if n < 0 then Inl TensorArrayError else Inr (replicate (nat n) None))"

definition ta_write :: "tensor_array \<Rightarrow> nat \<Rightarrow> tensor \<Rightarrow> error + tensor_array" where
  "ta_write ta i v = (if i < length ta then Inr (ta[i := Some v]) else Inl TensorArrayError)"

definition ta_read :: "tensor_array \<Rightarrow> int \<Rightarrow> error + tensor" where
  "ta_read ta i =
     (if 0 \<le> i \<and> i < int (length ta)
      then (case ta ! nat i of None \<Rightarrow> Inl TensorArrayError | Some v \<Rightarrow> Inr v)
      else Inl TensorArrayError)"

text \<open>Python's \<^verbatim>\<open>xs[i] = v\<close> for a non-negative index.\<close>

definition list_assign :: "'a list \<Rightarrow> nat \<Rightarrow> 'a \<Rightarrow> error + 'a list" where
  "list_assign xs i v = (if i < length xs then Inr (xs[i := v]) else Inl IndexError)"

section \<open>The capsule layers\<close>

subsection \<open>\<^verbatim>\<open>_squash\<close>\<close>

definition squash :: "tensor \<Rightarrow> error + tensor" where
  "squash in_tensor =
     ebind (norm_t in_tensor 2 True) (\<lambda>norm.
     ebind (tmul norm norm) (\<lambda>norm_squared.
     ebind (tdiv in_tensor norm) (\<lambda>direction.
     ebind (tadd (scalar (Fin 1)) norm_squared) (\<lambda>one_plus.
     ebind (tdiv norm_squared one_plus) (\<lambda>magnitude.
     tmul direction magnitude)))))"

subsection \<open>\<^verbatim>\<open>_leaky_routing\<close>\<close>

definition leaky_routing :: "tensor \<Rightarrow> nat \<Rightarrow> error + tensor" where
  "leaky_routing logits out_dim =
     ebind (reduce_sum (zeros_like logits) 2 True) (\<lambda>leak.
     ebind (concat_t leak logits 2) (\<lambda>leaky_logits.
     ebind (softmax leaky_logits 2) (\<lambda>leaky_routing.
     ebind (split_t leaky_routing 1 out_dim 2) (\<lambda>parts.
     Inr (snd parts)))))"

subsection \<open>\<^verbatim>\<open>_update_routing\<close>\<close>

text \<open>The variables of \<^verbatim>\<open>_update_routing\<close> that its inner function \<^verbatim>\<open>_body\<close> reads.\<close>

record closure =
  c_votes :: tensor
  c_votes_trans :: tensor
  c_biases :: tensor
  c_r_t_shape :: "nat list"
  c_num_ranks :: nat
  c_in_dim :: nat
  c_out_dim :: nat
  c_leaky :: bool

text \<open>
  Lines 84 to 89: the two axis permutations, which keep the trailing axes of a rank above 4
  in place, the transposed votes, and with them everything \<^verbatim>\<open>_body\<close> reads.
\<close>

definition votes_t_shape :: "nat \<Rightarrow> nat list" where
  "votes_t_shape num_ranks = [3, 0, 1, 2] @ map (\<lambda>i. i + 4) [0..<num_ranks - 4]"

definition r_t_shape :: "nat \<Rightarrow> nat list" where
  "r_t_shape num_ranks = [1, 2, 3, 0] @ map (\<lambda>i. i + 4) [0..<num_ranks - 4]"

definition body_closure :: "tensor \<Rightarrow> tensor \<Rightarrow> nat \<Rightarrow> nat \<Rightarrow> nat \<Rightarrow> bool \<Rightarrow> error + closure" where
  "body_closure votes biases num_ranks in_dim out_dim leaky =
     ebind (transpose_t votes (votes_t_shape num_ranks)) (\<lambda>votes_trans.
     Inr \<lparr>c_votes = votes, c_votes_trans = votes_trans, c_biases = biases,
          c_r_t_shape = r_t_shape num_ranks, c_num_ranks = num_ranks, c_in_dim = in_dim,
          c_out_dim = out_dim, c_leaky = leaky\<rparr>)"

text \<open>
  The tensor operations of \<^verbatim>\<open>_body\<close> (lines 94 to 101 and 103 to 108): from the logits
  to this iteration's activation and the updated logits.
\<close>

definition routing_step :: "closure \<Rightarrow> tensor \<Rightarrow> error + tensor \<times> tensor" where
  "routing_step c logits =
     ebind (if c_leaky c then leaky_routing logits (c_out_dim c) else softmax logits 2) (\<lambda>route.
     ebind (tmul route (c_votes_trans c)) (\<lambda>preact_unrolled.
     ebind (transpose_t preact_unrolled (c_r_t_shape c)) (\<lambda>preact_trans.
     ebind (reduce_sum preact_trans 1 False) (\<lambda>summed.
     ebind (tadd summed (c_biases c)) (\<lambda>preactivate.
     ebind (squash preactivate) (\<lambda>activation.
     ebind (expand_dims activation 1) (\<lambda>act_3d.
     ebind (list_assign (replicate (c_num_ranks c) 1) 1 (c_in_dim c)) (\<lambda>tile_shape.
     ebind (tile act_3d tile_shape) (\<lambda>act_replicated.
     ebind (tmul (c_votes c) act_replicated) (\<lambda>agreement.
     ebind (reduce_sum agreement 3 False) (\<lambda>distances.
     ebind (tadd logits distances) (\<lambda>logits'.
     Inr (activation, logits')))))))))))))"

text \<open>
  \<^verbatim>\<open>_body\<close>: one iteration of the loop. The write to the \<^verbatim>\<open>TensorArray\<close> (line 102)
  only uses the counter and the activation and can only fail when the graph is run, so it
  is placed after the tensor operations, whose errors are raised while the graph is built.
\<close>

definition body :: "closure \<Rightarrow> nat \<Rightarrow> tensor \<Rightarrow> tensor_array \<Rightarrow>
    error + nat \<times> tensor \<times> tensor_array" where
  "body c i logits activations =
     ebind (routing_step c logits) (\<lambda>(activation, logits').
     ebind (ta_write activations i activation) (\<lambda>activations'.
     Inr (i + 1, logits', activations')))"

text \<open>
  \<^verbatim>\<open>tf.while_loop\<close> with the condition \<^verbatim>\<open>i < num_routing\<close> and \<^verbatim>\<open>_body\<close>. Its
  check that the loop variables keep their shapes is not modelled; the logits do keep
  their shape when the shapes of the votes, the biases and the logits fit.
\<close>

function while_loop :: "closure \<Rightarrow> int \<Rightarrow> nat \<Rightarrow> tensor \<Rightarrow> tensor_array \<Rightarrow>
    error + nat \<times> tensor \<times> tensor_array" where
  "while_loop c num_routing i logits activations =
     (if int i < num_routing
      then (case body c i logits activations of
              Inl e \<Rightarrow> Inl e
            | Inr (i', logits', activations') \<Rightarrow> while_loop c num_routing i' logits' activations')
      else Inr (i, logits, activations))"
  by pat_completeness auto
termination
  by (relation "measure (\<lambda>(c, num_routing, i, logits, activations). nat (num_routing - int i))")
     (auto simp: body_def ebind_def split: sum.splits prod.splits)

declare while_loop.simps [simp del]

text \<open>
  The loop of lines 121 and 122 that appends every iteration's activation to the graph
  collection \<^verbatim>\<open>'visual'\<close>, which is passed in and returned.
\<close>

fun add_to_collection :: "tensor_array \<Rightarrow> nat list \<Rightarrow> tensor list \<Rightarrow> error + tensor list" where
  "add_to_collection activations [] visual = Inr visual"
| "add_to_collection activations (i # is) visual =
     ebind (ta_read activations (int i)) (\<lambda>a. add_to_collection activations is (visual @ [a]))"

text \<open>
  \<^verbatim>\<open>tf.while_loop\<close> calls \<^verbatim>\<open>_body\<close> once while the graph is built, whatever
  \<^verbatim>\<open>num_routing\<close> is: an error of the tensor operations of the body is raised then.
  The \<^verbatim>\<open>TensorArray\<close> is created, the loop iterates and the activations are read when
  the graph is run.
\<close>

definition update_routing :: "tensor \<Rightarrow> tensor \<Rightarrow> nat list \<Rightarrow> nat \<Rightarrow> nat \<Rightarrow> nat \<Rightarrow> bool \<Rightarrow> int \<Rightarrow>
    tensor list \<Rightarrow> error + tensor \<times> tensor list" where
  "update_routing votes biases logit_shape num_ranks in_dim out_dim leaky num_routing visual =
     ebind (body_closure votes biases num_ranks in_dim out_dim leaky) (\<lambda>c.
     let logits = fill logit_shape (Fin 0)
     in ebind (routing_step c logits) (\<lambda>traced.
        ebind (ta_new num_routing) (\<lambda>activations.
        ebind (while_loop c num_routing 0 logits activations) (\<lambda>(i, logits', activations').
        ebind (add_to_collection activations' [0..<nat num_routing] visual) (\<lambda>visual'.
        ebind (ta_read activations' (num_routing - 1)) (\<lambda>activation.
        Inr (activation, visual')))))))"

subsection \<open>\<^verbatim>\<open>capsule\<close>\<close>

text \<open>
  The votes of the fully connected layer (the name scope \<^verbatim>\<open>Wx_plus_b\<close>). The weights and
  the biases come from \<^verbatim>\<open>models.layers.variables\<close> and are parameters here.
\<close>

definition wx_plus_b :: "tensor \<Rightarrow> tensor \<Rightarrow> nat \<Rightarrow> nat \<Rightarrow> nat \<Rightarrow> error + tensor" where
  "wx_plus_b in_tensor weights in_dim out_dim out_atoms =
     ebind (expand_dims in_tensor (- 1)) (\<lambda>expanded.
     ebind (tile expanded [1, 1, 1, out_dim * out_atoms]) (\<lambda>in_tiled.
     ebind (tmul in_tiled weights) (\<lambda>weighted.
     ebind (reduce_sum weighted 2 False) (\<lambda>votes_flat.
     reshape_infer votes_flat [in_dim, out_dim, out_atoms]))))"

definition capsule :: "tensor \<Rightarrow> tensor \<Rightarrow> tensor \<Rightarrow> nat \<Rightarrow> nat \<Rightarrow> nat \<Rightarrow> nat \<Rightarrow> bool \<Rightarrow> int \<Rightarrow>
    tensor list \<Rightarrow> error + tensor \<times> tensor list" where
  "capsule in_tensor weights biases in_dim in_atoms out_dim out_atoms leaky
       num_routing visual =
     ebind (wx_plus_b in_tensor weights in_dim out_dim out_atoms) (\<lambda>votes_reshaped.
     (case shape in_tensor of
        [] \<Rightarrow> Inl ShapeError
      | batch # rest \<Rightarrow>
          update_routing votes_reshaped biases [batch, in_dim, out_dim] 1
            in_dim out_dim leaky num_routing visual))"

section \<open>Quantities the properties are stated with\<close>

text \<open>
  The Euclidean norm of the vector \<open>v 0, \<dots>, v (n - 1)\<close> as \<^verbatim>\<open>tf.norm\<close> computes it,
  and the value \<^verbatim>\<open>_squash\<close> gives an element \<open>x\<close> of a vector of norm \<open>n\<close>.
\<close>

definition vec_norm :: "(nat \<Rightarrow> fl) \<Rightarrow> nat \<Rightarrow> fl" where
  "vec_norm v n = fsqrt (fsum (map (\<lambda>k. fmul (v k) (v k)) [0..<n]))"

definition squash_elem :: "fl \<Rightarrow> fl \<Rightarrow> fl" where
  "squash_elem x n = fmul (fdiv x n) (fdiv (fmul n n) (fadd (Fin 1) (fmul n n)))"

text \<open>
  The norm, as a real number, of the capsule vector of \<open>t\<close> that runs through the index
  \<open>idx\<close> along the atoms axis (axis 2); it is meant for vectors of finite elements.
\<close>

definition atoms_norm :: "tensor \<Rightarrow> nat list \<Rightarrow> real" where
  "atoms_norm t idx =
     sqrt (sum_list (map (\<lambda>k. (fin_val (tget t (idx[2 := k])))\<^sup>2) [0..<shape t ! 2]))"

text \<open>
  The elements of the tensors of one iteration, as functions of the index: the routing
  coefficient without and with the leak channel (the latter adds the leak's \<open>exp 0 = 1\<close>
  to the denominator), the weighted sum of the votes over the input capsules plus the bias
  at the index \<open>b # j # a # s\<close>, the activation, and the agreement (the dot product over
  the atoms of a vote and the activation) at the index \<open>b # i # j # s\<close>.
\<close>

definition softmax_at :: "(nat list \<Rightarrow> fl) \<Rightarrow> nat \<Rightarrow> nat list \<Rightarrow> fl" where
  "softmax_at lg J idx = fdiv (fexp (lg idx)) (fsum (map (\<lambda>k. fexp (lg (idx[2 := k]))) [0..<J]))"

definition leaky_at :: "(nat list \<Rightarrow> fl) \<Rightarrow> nat \<Rightarrow> nat list \<Rightarrow> fl" where
  "leaky_at lg J idx =
     fdiv (fexp (lg idx)) (fadd (Fin 1) (fsum (map (\<lambda>k. fexp (lg (idx[2 := k]))) [0..<J])))"

definition route_at :: "bool \<Rightarrow> (nat list \<Rightarrow> fl) \<Rightarrow> nat \<Rightarrow> nat list \<Rightarrow> fl" where
  "route_at lk lg J = (if lk then leaky_at lg J else softmax_at lg J)"

definition preactivate_at ::
    "(nat list \<Rightarrow> fl) \<Rightarrow> (nat list \<Rightarrow> fl) \<Rightarrow> (nat list \<Rightarrow> fl) \<Rightarrow> nat \<Rightarrow> nat list \<Rightarrow> fl" where
  "preactivate_at r v bi I idx =
     fadd (fsum (map (\<lambda>i. fmul (r (remove_at 3 (insert_at 1 i idx))) (v (insert_at 1 i idx))) [0..<I]))
          (bi (drop 1 idx))"

definition activation_at :: "(nat list \<Rightarrow> fl) \<Rightarrow> nat \<Rightarrow> nat list \<Rightarrow> fl" where
  "activation_at pre A idx = squash_elem (pre idx) (vec_norm (\<lambda>k. pre (idx[2 := k])) A)"

definition agreement_at :: "(nat list \<Rightarrow> fl) \<Rightarrow> (nat list \<Rightarrow> fl) \<Rightarrow> nat \<Rightarrow> nat list \<Rightarrow> fl" where
  "agreement_at v act A idx =
     fsum (map (\<lambda>a. fmul (v (insert_at 3 a idx)) (act (remove_at 1 (insert_at 3 a idx)))) [0..<A])"

text \<open>
  What \<^verbatim>\<open>_body\<close> reads when the votes have the shape \<open>B # I # J # A # sp\<close> and the
  biases the shape \<open>J # A # sp\<close>; \<open>nr\<close> is the argument \<^verbatim>\<open>num_ranks\<close>.
\<close>

definition routing_closure ::
    "nat \<Rightarrow> nat \<Rightarrow> nat \<Rightarrow> nat \<Rightarrow> nat \<Rightarrow> nat list \<Rightarrow> (nat list \<Rightarrow> fl) \<Rightarrow> (nat list \<Rightarrow> fl) \<Rightarrow> bool \<Rightarrow>
     closure" where
  "routing_closure nr B I J A sp v bi lk =
     \<lparr>c_votes = tabulate (B # I # J # A # sp) v,
      c_votes_trans = tabulate (A # B # I # J # sp) (\<lambda>idx. v (remove_at 0 (insert_at 4 (idx ! 0) idx))),
      c_biases = tabulate (J # A # sp) bi,
      c_r_t_shape = r_t_shape (4 + length sp), c_num_ranks = nr,
      c_in_dim = I, c_out_dim = J, c_leaky = lk\<rparr>"

text \<open>The first \<open>n\<close> iterations of the loop: their activations and the logits after them.\<close>

fun routing_trace :: "closure \<Rightarrow> nat \<Rightarrow> tensor \<Rightarrow> error + tensor list \<times> tensor" where
  "routing_trace c 0 logits = Inr ([], logits)"
| "routing_trace c (Suc n) logits =
     ebind (routing_step c logits) (\<lambda>(activation, logits').
     ebind (routing_trace c n logits') (\<lambda>(acts, final).
     Inr (activation # acts, final)))"

text \<open>
  One iteration on index functions: the activation computed from the logits \<open>lg\<close>, the
  logits after the iteration, and the activations and final logits of \<open>n\<close> iterations.
\<close>

definition iteration_activation ::
    "bool \<Rightarrow> (nat list \<Rightarrow> fl) \<Rightarrow> (nat list \<Rightarrow> fl) \<Rightarrow> nat \<Rightarrow> nat \<Rightarrow> nat \<Rightarrow> (nat list \<Rightarrow> fl) \<Rightarrow>
     nat list \<Rightarrow> fl" where
  "iteration_activation lk v bi I J A lg = activation_at (preactivate_at (route_at lk lg J) v bi I) A"

definition iteration_logits ::
    "bool \<Rightarrow> (nat list \<Rightarrow> fl) \<Rightarrow> (nat list \<Rightarrow> fl) \<Rightarrow> nat \<Rightarrow> nat \<Rightarrow> nat \<Rightarrow> (nat list \<Rightarrow> fl) \<Rightarrow>
     nat list \<Rightarrow> fl" where
  "iteration_logits lk v bi I J A lg =
     (\<lambda>idx. fadd (lg idx) (agreement_at v (iteration_activation lk v bi I J A lg) A idx))"

fun trace_at ::
    "bool \<Rightarrow> (nat list \<Rightarrow> fl) \<Rightarrow> (nat list \<Rightarrow> fl) \<Rightarrow> nat \<Rightarrow> nat \<Rightarrow> nat \<Rightarrow> (nat list \<Rightarrow> fl) \<Rightarrow> nat \<Rightarrow>
     (nat list \<Rightarrow> fl) list \<times> (nat list \<Rightarrow> fl)" where
  "trace_at lk v bi I J A lg 0 = ([], lg)"
| "trace_at lk v bi I J A lg (Suc n) =
     (case trace_at lk v bi I J A (iteration_logits lk v bi I J A lg) n of
        (acts, final) \<Rightarrow> (iteration_activation lk v bi I J A lg # acts, final))"

text \<open>
  Inputs of \<^verbatim>\<open>_update_routing\<close> whose shapes fit: votes of shape
  \<open>[batch, in_dim, out_dim, atoms] @ sp\<close>, biases of shape \<open>[out_dim, atoms] @ sp\<close>, logits
  of shape \<open>[batch, in_dim, out_dim] @ sp\<close> and the rank of the votes as \<^verbatim>\<open>num_ranks\<close>.
  The trailing axes \<open>sp\<close> are none for a fully connected layer and height and width for
  \<^verbatim>\<open>conv_slim_capsule\<close>, which passes \<^verbatim>\<open>num_ranks=6\<close>.
\<close>

definition routing_inputs ::
    "tensor \<Rightarrow> tensor \<Rightarrow> nat list \<Rightarrow> nat \<Rightarrow> nat \<Rightarrow> nat \<Rightarrow> nat \<Rightarrow> nat \<Rightarrow> nat list \<Rightarrow> bool" where
  "routing_inputs votes biases logit_shape num_ranks in_dim out_dim B A sp =
     (well_formed votes \<and> well_formed biases \<and>
      shape votes = B # in_dim # out_dim # A # sp \<and> shape biases = out_dim # A # sp \<and>
      logit_shape = B # in_dim # out_dim # sp \<and> num_ranks = 4 + length sp)"

text \<open>
  The reference computation of a single routing pass, in the words of the specification:
  uniform routing coefficients (\<open>1 / out_dim\<close>, or \<open>1 / (out_dim + 1)\<close> with leaky
  routing) applied to the votes, summed over the input-capsule axis (axis 1), plus the bias,
  followed by squash.
\<close>

definition single_pass_reference :: "tensor \<Rightarrow> tensor \<Rightarrow> nat \<Rightarrow> nat \<Rightarrow> bool \<Rightarrow> error + tensor" where
  "single_pass_reference votes biases in_dim out_dim leaky =
     (let coefficient = Fin (1 / real (if leaky then out_dim + 1 else out_dim))
      in squash (tabulate (remove_at 1 (shape votes))
           (\<lambda>idx. fadd (fsum (map (\<lambda>i. fmul coefficient (tget votes (insert_at 1 i idx))) [0..<in_dim]))
                       (tget biases (drop 1 idx)))))"

section \<open>Reasoning about tensors\<close>

lemma ebind_Inr [simp]: "ebind (Inr x) f = f x"
  by (simp add: ebind_def)

lemma ebind_Inl [simp]: "ebind (Inl e) f = Inl e"
  by (simp add: ebind_def)

lemma ebind_eq_Inr: "ebind m f = Inr y \<longleftrightarrow> (\<exists>x. m = Inr x \<and> f x = Inr y)"
  by (cases m) simp_all

lemma length_all_indices: "length (all_indices sh) = prod_list sh"
  by (induction sh) (simp_all add: length_concat comp_def sum_list_triv)

lemma valid_index_Nil [simp]: "valid_index [] idx \<longleftrightarrow> idx = []"
  by (auto simp: valid_index_def)

lemma valid_index_Nil2 [simp]: "valid_index sh [] \<longleftrightarrow> sh = []"
  by (auto simp: valid_index_def)

lemma valid_index_Cons [simp]: "valid_index (n # ns) (i # is) \<longleftrightarrow> i < n \<and> valid_index ns is"
  by (simp add: valid_index_def)

lemma valid_index_Cons_iff:
  "valid_index (n # ns) idx \<longleftrightarrow> (\<exists>i is. idx = i # is \<and> i < n \<and> valid_index ns is)"
  by (auto simp: valid_index_def list_all2_Cons2)

lemma valid_index_length: "valid_index sh idx \<Longrightarrow> length idx = length sh"
  by (simp add: valid_index_def list_all2_lengthD)

lemma valid_index_nth: "valid_index sh idx \<Longrightarrow> k < length sh \<Longrightarrow> idx ! k < sh ! k"
  by (simp add: valid_index_def list_all2_conv_all_nth)

lemma valid_index_iff_nth:
  "valid_index sh idx \<longleftrightarrow> length idx = length sh \<and> (\<forall>k<length sh. idx ! k < sh ! k)"
  by (auto simp: valid_index_def list_all2_conv_all_nth)

lemma valid_index_append:
  "length xs = length a \<Longrightarrow> valid_index (a @ b) (xs @ ys) \<longleftrightarrow> valid_index a xs \<and> valid_index b ys"
  by (simp add: valid_index_def list_all2_append)

lemma set_all_indices: "set (all_indices sh) = {idx. valid_index sh idx}"
proof (induction sh)
  case Nil
  show ?case by auto
next
  case (Cons n ns)
  show ?case by (auto simp: Cons valid_index_Cons_iff)
qed

lemma flat_index_less: "valid_index sh idx \<Longrightarrow> flat_index sh idx < prod_list sh"
proof (induction sh idx rule: flat_index.induct)
  case (1 n ns i "is")
  then have i: "i < n" and r: "flat_index ns is < prod_list ns"
    by simp_all
  have "i * prod_list ns + flat_index ns is < i * prod_list ns + prod_list ns"
    using r by simp
  also have "\<dots> = Suc i * prod_list ns" by simp
  also have "\<dots> \<le> n * prod_list ns" using i by (intro mult_le_mono1) simp
  finally show ?case by simp
qed simp_all

lemma nth_concat_uniform:
  assumes "\<And>x. x \<in> set xss \<Longrightarrow> length x = m" "i < length xss" "j < m"
  shows "concat xss ! (i * m + j) = xss ! i ! j"
  using assms
proof (induction xss arbitrary: i)
  case Nil
  then show ?case by simp
next
  case (Cons x xss)
  show ?case
  proof (cases i)
    case 0
    then show ?thesis using Cons.prems by (simp add: nth_append)
  next
    case (Suc k)
    then show ?thesis using Cons.prems Cons.IH[of k] by (simp add: nth_append)
  qed
qed

lemma nth_all_indices: "valid_index sh idx \<Longrightarrow> all_indices sh ! flat_index sh idx = idx"
proof (induction sh idx rule: flat_index.induct)
  case (1 n ns i "is")
  then have i: "i < n" and v: "valid_index ns is"
    by simp_all
  have r: "flat_index ns is < prod_list ns" using v by (rule flat_index_less)
  have "concat (map (\<lambda>i. map ((#) i) (all_indices ns)) [0..<n]) ! (i * prod_list ns + flat_index ns is)
      = map (\<lambda>i. map ((#) i) (all_indices ns)) [0..<n] ! i ! flat_index ns is"
    by (rule nth_concat_uniform) (use i r in \<open>auto simp: length_all_indices\<close>)
  then show ?case using i r 1 v by (simp add: length_all_indices)
qed simp_all

lemma shape_tabulate [simp]: "shape (tabulate sh f) = sh"
  by (simp add: tabulate_def)

lemma well_formed_tabulate [simp]: "well_formed (tabulate sh f)"
  by (simp add: tabulate_def well_formed_def length_all_indices)

lemma tget_tabulate [simp]: "valid_index sh idx \<Longrightarrow> tget (tabulate sh f) idx = f idx"
  using flat_index_less[of sh idx] nth_all_indices[of sh idx]
  by (simp add: tabulate_def tget_def length_all_indices)

lemma tabulate_cong:
  "(\<And>idx. valid_index sh idx \<Longrightarrow> f idx = g idx) \<Longrightarrow> tabulate sh f = tabulate sh g"
  by (simp add: tabulate_def set_all_indices)

subsection \<open>Broadcasting\<close>

lemma map2_bdim_ones_left:
  "map2 (\<lambda>x y. if x = Suc 0 then y else x) (replicate (length pre) (Suc 0)) pre = pre"
  by (induction pre) simp_all

lemma map2_bdim_ones_right:
  "map2 (\<lambda>x y. if x = Suc 0 then y else x) pre (replicate (length pre) (Suc 0)) = pre"
  by (induction pre) simp_all

lemma map2_bdim_same: "map2 (\<lambda>x y. if x = Suc 0 then y else x) sh sh = sh"
  by (induction sh) simp_all

lemma compat_ones_left:
  "list_all2 (\<lambda>x y. x = y \<or> x = Suc 0 \<or> y = Suc 0) (replicate (length pre) (Suc 0)) pre"
  by (induction pre) simp_all

lemma compat_ones_right:
  "list_all2 (\<lambda>x y. x = y \<or> x = Suc 0 \<or> y = Suc 0) pre (replicate (length pre) (Suc 0))"
  by (induction pre) simp_all

lemma compat_same: "list_all2 (\<lambda>x y. x = y \<or> x = Suc 0 \<or> y = Suc 0) sh sh"
  by (induction sh) simp_all

lemma broadcast_shape_prefix_left: "broadcast_shape sh (pre @ sh) = Some (pre @ sh)"
  by (simp add: broadcast_shape_def pad_shape_def list_all2_append compat_ones_left compat_same
      map2_bdim_ones_left map2_bdim_same)

lemma broadcast_shape_prefix_right: "broadcast_shape (pre @ sh) sh = Some (pre @ sh)"
  by (simp add: broadcast_shape_def pad_shape_def list_all2_append compat_ones_right compat_same
      map2_bdim_ones_right map2_bdim_same)

lemma broadcast_shape_same: "broadcast_shape sh sh = Some sh"
  using broadcast_shape_prefix_left[of sh "[]"] by simp

lemma broadcast_index_same: "valid_index sh idx \<Longrightarrow> broadcast_index sh idx = idx"
  by (rule nth_equalityI)
     (auto simp: broadcast_index_def valid_index_length dest: valid_index_nth)

lemma broadcast_index_prefix:
  "valid_index sh idx \<Longrightarrow> broadcast_index sh (p @ idx) = idx"
  using broadcast_index_same[of sh idx]
  by (simp add: broadcast_index_def valid_index_length)

lemma compat_update_one:
  "list_all2 (\<lambda>x y. x = y \<or> x = Suc 0 \<or> y = Suc 0) sh (sh[k := Suc 0])"
  by (cases "k < length sh") (auto simp: list_all2_conv_all_nth nth_list_update compat_same)

lemma map2_bdim_update_one:
  "map2 (\<lambda>x y. if x = Suc 0 then y else x) sh (sh[k := Suc 0]) = sh"
  by (cases "k < length sh") (auto simp: nth_list_update map2_bdim_same intro!: nth_equalityI)

lemma broadcast_shape_keep: "broadcast_shape sh (sh[k := Suc 0]) = Some sh"
  by (simp add: broadcast_shape_def pad_shape_def compat_update_one map2_bdim_update_one)

lemma broadcast_index_keep:
  assumes "valid_index sh idx"
  shows "broadcast_index (sh[k := Suc 0]) idx = idx[k := 0]"
proof (cases "k < length sh")
  case True
  have len: "length idx = length sh" using assms by (rule valid_index_length)
  show ?thesis
  proof (rule nth_equalityI)
    show "length (broadcast_index (sh[k := Suc 0]) idx) = length (idx[k := 0])"
      by (simp add: broadcast_index_def len)
  next
    fix i assume "i < length (broadcast_index (sh[k := Suc 0]) idx)"
    then have i: "i < length sh" by (simp add: broadcast_index_def len)
    then have "idx ! i < sh ! i" using assms by (simp add: valid_index_nth)
    then show "broadcast_index (sh[k := Suc 0]) idx ! i = idx[k := 0] ! i"
      using i True by (auto simp: broadcast_index_def len nth_list_update)
  qed
next
  case False
  then have "sh[k := Suc 0] = sh" "idx[k := 0] = idx"
    using valid_index_length[OF assms] by (simp_all add: list_update_beyond not_less)
  then show ?thesis using assms by (simp add: broadcast_index_same)
qed

subsection \<open>Element-wise operations in closed form\<close>

lemma binop_same:
  "shape a = shape b \<Longrightarrow>
   binop f a b = Inr (tabulate (shape a) (\<lambda>idx. f (tget a idx) (tget b idx)))"
  using broadcast_shape_same[of "shape b"]
  by (auto simp: binop_def broadcast_index_same intro!: tabulate_cong)

lemma binop_prefix_left:
  assumes "shape b = pre @ shape a"
  shows "binop f a b =
    Inr (tabulate (shape b) (\<lambda>idx. f (tget a (drop (length pre) idx)) (tget b idx)))"
proof -
  have "f (tget a (broadcast_index (shape a) idx)) (tget b (broadcast_index (pre @ shape a) idx))
      = f (tget a (drop (length pre) idx)) (tget b idx)"
    if "valid_index (pre @ shape a) idx" for idx
  proof -
    have len: "length idx = length pre + length (shape a)"
      using that by (simp add: valid_index_length)
    have split: "idx = take (length pre) idx @ drop (length pre) idx" by simp
    have "valid_index (shape a) (drop (length pre) idx)"
      using that len valid_index_append[of "take (length pre) idx" pre "shape a" "drop (length pre) idx"]
      by simp
    then have "broadcast_index (shape a) idx = drop (length pre) idx"
      using broadcast_index_prefix[of "shape a" "drop (length pre) idx" "take (length pre) idx"]
      by simp
    then show ?thesis using that by (simp add: broadcast_index_same)
  qed
  then show ?thesis
    using assms by (auto simp: binop_def broadcast_shape_prefix_left intro!: tabulate_cong)
qed

lemma binop_prefix_right:
  assumes "shape a = pre @ shape b"
  shows "binop f a b =
    Inr (tabulate (shape a) (\<lambda>idx. f (tget a idx) (tget b (drop (length pre) idx))))"
proof -
  have "f (tget a (broadcast_index (pre @ shape b) idx)) (tget b (broadcast_index (shape b) idx))
      = f (tget a idx) (tget b (drop (length pre) idx))"
    if "valid_index (pre @ shape b) idx" for idx
  proof -
    have len: "length idx = length pre + length (shape b)"
      using that by (simp add: valid_index_length)
    have "valid_index (shape b) (drop (length pre) idx)"
      using that len valid_index_append[of "take (length pre) idx" pre "shape b" "drop (length pre) idx"]
      by simp
    then have "broadcast_index (shape b) idx = drop (length pre) idx"
      using broadcast_index_prefix[of "shape b" "drop (length pre) idx" "take (length pre) idx"]
      by simp
    then show ?thesis using that by (simp add: broadcast_index_same)
  qed
  then show ?thesis
    using assms by (auto simp: binop_def broadcast_shape_prefix_right intro!: tabulate_cong)
qed

lemma binop_keep:
  assumes "shape b = (shape a)[k := Suc 0]"
  shows "binop f a b = Inr (tabulate (shape a) (\<lambda>idx. f (tget a idx) (tget b (idx[k := 0]))))"
  using assms
  by (auto simp: binop_def broadcast_shape_keep broadcast_index_keep broadcast_index_same
      intro!: tabulate_cong)

lemma map_flat_index_all_indices: "map (flat_index sh) (all_indices sh) = [0..<prod_list sh]"
proof (induction sh)
  case Nil
  show ?case by simp
next
  case (Cons n ns)
  let ?P = "prod_list ns"
  have blocks: "concat (map (\<lambda>i. map (\<lambda>j. i * ?P + j) [0..<?P]) [0..<m]) = [0..<m * ?P]" for m
  proof (induction m)
    case 0
    show ?case by simp
  next
    case (Suc m)
    have "map (\<lambda>j. m * ?P + j) [0..<?P] = [m * ?P..<m * ?P + ?P]"
      using map_add_upt[of "m * ?P" ?P] by (simp add: add.commute)
    moreover have "[0..<m * ?P + ?P] = [0..<m * ?P] @ [m * ?P..<m * ?P + ?P]"
      by (rule upt_add_eq_append) simp
    ultimately show ?case using Suc by (simp add: add.commute)
  qed
  have "map (flat_index (n # ns)) (all_indices (n # ns))
      = concat (map (\<lambda>i. map (\<lambda>j. i * ?P + j) (map (flat_index ns) (all_indices ns))) [0..<n])"
    by (simp add: map_concat comp_def)
  then show ?case by (simp add: Cons blocks)
qed

lemma tabulate_tget: "well_formed t \<Longrightarrow> tabulate (shape t) (tget t) = t"
proof -
  assume wf: "well_formed t"
  have "map (\<lambda>idx. data t ! flat_index (shape t) idx) (all_indices (shape t))
      = map ((!) (data t)) (map (flat_index (shape t)) (all_indices (shape t)))"
    by simp
  also have "\<dots> = data t"
    using wf map_nth[of "data t"] by (simp add: map_flat_index_all_indices well_formed_def)
  finally show ?thesis by (cases t) (simp add: tabulate_def tget_def[abs_def])
qed

lemma valid_index_update:
  "valid_index sh idx \<Longrightarrow> k < n \<Longrightarrow> valid_index (sh[a := n]) (idx[a := k])"
  by (cases "a < length sh") (auto simp: valid_index_iff_nth nth_list_update)

lemma valid_index_update_back:
  "valid_index (sh[a := n]) idx \<Longrightarrow> a < length sh \<Longrightarrow> k < sh ! a \<Longrightarrow> valid_index sh (idx[a := k])"
  using valid_index_update[of "sh[a := n]" idx k "sh ! a" a] by simp

lemma tget_scalar [simp]: "tget (scalar x) [] = x"
  by (simp add: tget_def scalar_def)

lemma shape_scalar [simp]: "shape (scalar x) = []"
  by (simp add: scalar_def)

lemma binop_tabulate_same:
  "binop f (tabulate sh g) (tabulate sh h) = Inr (tabulate sh (\<lambda>idx. f (g idx) (h idx)))"
  by (auto simp: binop_same intro!: tabulate_cong)

lemma binop_tabulate_keep:
  "binop f (tabulate sh g) (tabulate (sh[k := Suc 0]) h)
     = Inr (tabulate sh (\<lambda>idx. f (g idx) (h (idx[k := 0]))))"
  using binop_keep[of "tabulate (sh[k := Suc 0]) h" "tabulate sh g" k f]
    valid_index_update[of sh _ 0 "Suc 0" k]
  by (auto intro!: tabulate_cong)

lemma binop_tabulate_prefix_left:
  "binop f (tabulate sh g) (tabulate (pre @ sh) h)
     = Inr (tabulate (pre @ sh) (\<lambda>idx. f (g (drop (length pre) idx)) (h idx)))"
proof -
  have "valid_index sh (drop (length pre) idx)" if "valid_index (pre @ sh) idx" for idx
    using that valid_index_length[OF that]
      valid_index_append[of "take (length pre) idx" pre sh "drop (length pre) idx"]
    by simp
  then show ?thesis
    using binop_prefix_left[of "tabulate (pre @ sh) h" pre "tabulate sh g" f]
    by (auto intro!: tabulate_cong)
qed

lemma binop_tabulate_prefix_right:
  "binop f (tabulate (pre @ sh) g) (tabulate sh h)
     = Inr (tabulate (pre @ sh) (\<lambda>idx. f (g idx) (h (drop (length pre) idx))))"
proof -
  have "valid_index sh (drop (length pre) idx)" if "valid_index (pre @ sh) idx" for idx
    using that valid_index_length[OF that]
      valid_index_append[of "take (length pre) idx" pre sh "drop (length pre) idx"]
    by simp
  then show ?thesis
    using binop_prefix_right[of "tabulate (pre @ sh) g" pre "tabulate sh h" f]
    by (auto intro!: tabulate_cong)
qed

lemma binop_scalar_tabulate:
  "binop f (scalar x) (tabulate sh h) = Inr (tabulate sh (\<lambda>idx. f x (h idx)))"
  using binop_prefix_left[of "tabulate sh h" sh "scalar x" f]
  by (auto simp: valid_index_length intro!: tabulate_cong)

lemma fsum_map_cong: "(\<And>k. k < n \<Longrightarrow> f k = g k) \<Longrightarrow> fsum (map f [0..<n]) = fsum (map g [0..<n])"
  by (rule arg_cong[where f = fsum]) simp

lemma reduce_sum_keep_tabulate:
  assumes "a < length sh"
  shows "reduce_sum (tabulate sh f) a True
     = Inr (tabulate (sh[a := Suc 0]) (\<lambda>idx. fsum (map (\<lambda>k. f (idx[a := k])) [0..<sh ! a])))"
proof -
  have "fsum (map (\<lambda>k. tget (tabulate sh f) (idx[a := k])) [0..<sh ! a])
      = fsum (map (\<lambda>k. f (idx[a := k])) [0..<sh ! a])"
    if "valid_index (sh[a := Suc 0]) idx" for idx
    by (rule fsum_map_cong) (simp add: valid_index_update_back[OF that assms])
  then show ?thesis using assms by (auto simp: reduce_sum_def intro!: tabulate_cong)
qed

lemma tsqrt_tabulate: "tsqrt (tabulate sh f) = tabulate sh (\<lambda>idx. fsqrt (f idx))"
  by (auto simp: tsqrt_def intro!: tabulate_cong)

lemma norm_t_tabulate:
  "a < length sh \<Longrightarrow> norm_t (tabulate sh f) a True
     = Inr (tabulate (sh[a := Suc 0]) (\<lambda>idx. vec_norm (\<lambda>k. f (idx[a := k])) (sh ! a)))"
  by (simp add: norm_t_def tmul_def binop_tabulate_same reduce_sum_keep_tabulate tsqrt_tabulate
      vec_norm_def)

lemma squash_tabulate:
  assumes "2 < length sh"
  shows "squash (tabulate sh f)
     = Inr (tabulate sh (\<lambda>idx. squash_elem (f idx) (vec_norm (\<lambda>k. f (idx[2 := k])) (sh ! 2))))"
  by (simp add: squash_def norm_t_tabulate[OF assms] tmul_def tdiv_def tadd_def
      binop_tabulate_same binop_tabulate_keep binop_scalar_tabulate squash_elem_def)

lemma squash_rank_error: "length (shape t) \<le> 2 \<Longrightarrow> squash t = Inl ShapeError"
  by (simp add: squash_def norm_t_def tmul_def binop_same reduce_sum_def)

lemma is_fin_conv: "is_fin x \<longleftrightarrow> x = Fin (fin_val x)"
  by (cases x) simp_all

lemma fsum_Fin: "fsum (map (\<lambda>k. Fin (r k)) xs) = Fin (sum_list (map r xs))"
  by (induction xs) simp_all

lemma fadd_zero_left [simp]: "fadd (Fin 0) x = x"
  by (cases x) simp_all

lemma vec_norm_Fin:
  "vec_norm (\<lambda>k. Fin (r k)) n = Fin (sqrt (sum_list (map (\<lambda>k. (r k)\<^sup>2) [0..<n])))"
proof -
  have "0 \<le> sum_list (map (\<lambda>k. r k * r k) [0..<n])"
    by (rule sum_list_nonneg) auto
  then show ?thesis
    by (simp add: vec_norm_def fsum_Fin power2_eq_square)
qed

lemma squash_elem_Fin:
  "n \<noteq> 0 \<Longrightarrow> squash_elem (Fin x) (Fin n) = Fin (x / n * (n\<^sup>2 / (1 + n\<^sup>2)))"
proof -
  have "1 + n * n \<noteq> 0" using sum_power2_gt_zero_iff[of 1 n] by (simp add: power2_eq_square)
  then show ?thesis if "n \<noteq> 0" using that by (simp add: squash_elem_def power2_eq_square)
qed

lemma squash_elem_zero: "squash_elem (Fin 0) (Fin 0) = NaN"
  by (simp add: squash_elem_def)

lemma squashed_norm:
  fixes r :: "nat \<Rightarrow> real"
  assumes "m = sqrt (sum_list (map (\<lambda>k. (r k)\<^sup>2) xs))" "m \<noteq> 0"
  shows "sqrt (sum_list (map (\<lambda>k. (r k / m * (m\<^sup>2 / (1 + m\<^sup>2)))\<^sup>2) xs)) = m\<^sup>2 / (1 + m\<^sup>2)"
proof -
  let ?S = "sum_list (map (\<lambda>k. (r k)\<^sup>2) xs)"
  have nonneg: "0 \<le> ?S" by (rule sum_list_nonneg) auto
  then have m2: "m\<^sup>2 = ?S" using assms(1) by simp
  define s where "s = m\<^sup>2 / (1 + m\<^sup>2)"
  have s: "0 \<le> s" by (simp add: s_def)
  have "(\<lambda>k. (r k / m * s)\<^sup>2) = (\<lambda>k. (s / m)\<^sup>2 * (r k)\<^sup>2)"
    by (rule ext) (simp add: power_mult_distrib power_divide)
  then have "sum_list (map (\<lambda>k. (r k / m * s)\<^sup>2) xs) = (s / m)\<^sup>2 * ?S"
    by (simp add: sum_list_const_mult)
  also have "\<dots> = s\<^sup>2"
    using assms(2) by (simp add: m2[symmetric] power_divide)
  finally show ?thesis
    using s unfolding s_def[symmetric] by simp
qed

section \<open>Properties of \<^verbatim>\<open>_squash\<close>\<close>



lemma squash_zero_vector_nan:
  assumes wf: "well_formed t" and rank: "2 < length (shape t)"
    and idx: "valid_index (shape t) idx"
    and zero: "\<forall>k<shape t ! 2. tget t (idx[2 := k]) = Fin 0"
  shows "\<exists>out. squash t = Inr out \<and> shape out = shape t \<and> tget out idx = NaN"
proof -
  let ?n = "shape t ! 2"
  let ?out = "tabulate (shape t)
      (\<lambda>i. squash_elem (tget t i) (vec_norm (\<lambda>k. tget t (i[2 := k])) (shape t ! 2)))"
  have sq: "squash t = Inr ?out"
    using squash_tabulate[OF rank, of "tget t"] by (simp add: tabulate_tget[OF wf])
  have "idx ! 2 < ?n" using idx rank by (simp add: valid_index_nth)
  then have here: "tget t idx = Fin 0"
    using zero[rule_format, of "idx ! 2"] by simp
  have "fsum (map (\<lambda>k. fmul (tget t (idx[2 := k])) (tget t (idx[2 := k]))) [0..<?n])
      = fsum (map (\<lambda>k. Fin 0) [0..<?n])"
    by (rule fsum_map_cong) (simp add: zero)
  then have "vec_norm (\<lambda>k. tget t (idx[2 := k])) ?n = Fin 0"
    by (simp add: vec_norm_def fsum_Fin)
  then show ?thesis
    using sq idx here by (intro exI[of _ ?out]) (simp add: squash_elem_zero)
qed

text \<open>
  Claim C9. \<^verbatim>\<open>_squash\<close> divides by the norm as it is, with no epsilon added: on the
  zero vector the norm is 0, the division \<open>in_tensor / norm\<close> is \<open>0 / 0\<close> and every
  element of the result is NaN, where the claim expects a vector close to zero.
\<close>

theorem squash_zero_vector:
  "squash (Tensor [1, 1, 2] [Fin 0, Fin 0]) = Inr (Tensor [1, 1, 2] [NaN, NaN])"
  by (simp add: squash_def norm_t_def tmul_def tdiv_def tadd_def binop_def broadcast_shape_def
      pad_shape_def broadcast_index_def tabulate_def tget_def reduce_sum_def tsqrt_def scalar_def
      upt_rec)

section \<open>The operations of the routing loop in closed form\<close>

lemma valid_index_update_same:
  "valid_index sh idx \<Longrightarrow> a < length sh \<Longrightarrow> k < sh ! a \<Longrightarrow> valid_index sh (idx[a := k])"
  using valid_index_update[of sh idx k "sh ! a" a] by simp

lemma softmax_tabulate:
  assumes "a < length sh"
  shows "softmax (tabulate sh f) a
     = Inr (tabulate sh (\<lambda>idx. fdiv (fexp (f idx))
              (fsum (map (\<lambda>k. fexp (f (idx[a := k]))) [0..<sh ! a]))))"
proof -
  have "fsum (map (\<lambda>k. fexp (tget (tabulate sh f) (idx[a := k]))) [0..<sh ! a])
      = fsum (map (\<lambda>k. fexp (f (idx[a := k]))) [0..<sh ! a])"
    if "valid_index sh idx" for idx
    by (rule fsum_map_cong) (simp add: valid_index_update_same[OF that assms])
  then show ?thesis using assms by (auto simp: softmax_def intro!: tabulate_cong)
qed

lemma valid_index_insert_at:
  assumes "valid_index (remove_at a sh) idx" "a < length sh" "k < sh ! a"
  shows "valid_index sh (insert_at a k idx)"
proof -
  from assms(1) obtain us vs where idx: "idx = us @ vs" and len: "length us = length (take a sh)"
    and us: "list_all2 (<) us (take a sh)" and vs: "list_all2 (<) vs (drop (Suc a) sh)"
    unfolding valid_index_def remove_at_def list_all2_append2 by blast
  have a: "length us = a" using len assms(2) by simp
  have "list_all2 (<) (us @ k # vs) (take a sh @ sh ! a # drop (Suc a) sh)"
    using us vs assms(3) by (simp add: list_all2_appendI)
  then show ?thesis
    using assms(2) a by (simp add: valid_index_def insert_at_def idx id_take_nth_drop[symmetric])
qed

lemma valid_index_remove_at:
  assumes "valid_index (insert_at a n sh) idx" "a \<le> length sh"
  shows "valid_index sh (remove_at a idx)"
proof -
  from assms(1) obtain us vs where idx: "idx = us @ vs" and len: "length us = length (take a sh)"
    and us: "list_all2 (<) us (take a sh)" and vs: "list_all2 (<) vs (n # drop a sh)"
    unfolding valid_index_def insert_at_def list_all2_append2 by blast
  from vs obtain v ws where vs': "vs = v # ws" "list_all2 (<) ws (drop a sh)"
    by (auto simp: list_all2_Cons2)
  have a: "length us = a" using len assms(2) by simp
  have "list_all2 (<) (us @ ws) (take a sh @ drop a sh)"
    using us vs'(2) by (rule list_all2_appendI)
  then show ?thesis
    using a by (simp add: valid_index_def remove_at_def idx vs')
qed

lemma reduce_sum_drop_tabulate:
  assumes "a < length sh"
  shows "reduce_sum (tabulate sh f) a False
     = Inr (tabulate (remove_at a sh) (\<lambda>idx. fsum (map (\<lambda>k. f (insert_at a k idx)) [0..<sh ! a])))"
proof -
  have "fsum (map (\<lambda>k. tget (tabulate sh f) (insert_at a k idx)) [0..<sh ! a])
      = fsum (map (\<lambda>k. f (insert_at a k idx)) [0..<sh ! a])"
    if "valid_index (remove_at a sh) idx" for idx
    by (rule fsum_map_cong) (simp add: valid_index_insert_at[OF that assms])
  then show ?thesis using assms by (auto simp: reduce_sum_def intro!: tabulate_cong)
qed

lemma expand_dims_tabulate:
  assumes "a \<le> length sh"
  shows "expand_dims (tabulate sh f) (int a)
     = Inr (tabulate (insert_at a 1 sh) (\<lambda>idx. f (remove_at a idx)))"
  using assms by (auto simp: expand_dims_def Let_def valid_index_remove_at intro!: tabulate_cong)

lemma expand_dims_last_tabulate:
  "expand_dims (tabulate sh f) (- 1)
     = Inr (tabulate (sh @ [1]) (\<lambda>idx. f (butlast idx)))"
proof -
  have "remove_at (length sh) idx = butlast idx" if "valid_index (sh @ [Suc 0]) idx" for idx
    using valid_index_length[OF that] by (simp add: remove_at_def butlast_conv_take)
  moreover have "valid_index sh (remove_at (length sh) idx)" if "valid_index (sh @ [Suc 0]) idx" for idx
    using valid_index_remove_at[of "length sh" "Suc 0" sh idx] that by (simp add: insert_at_def)
  ultimately show ?thesis
    by (auto simp: expand_dims_def Let_def insert_at_def intro!: tabulate_cong)
qed

lemma tile_tabulate:
  assumes "length ms = length sh"
  shows "tile (tabulate sh f) ms
     = Inr (tabulate (map2 (*) sh ms) (\<lambda>idx. f (map2 (\<lambda>i d. i mod d) idx sh)))"
proof -
  have "valid_index sh (map2 (\<lambda>i d. i mod d) idx sh)" if "valid_index (map2 (*) sh ms) idx" for idx
  proof -
    have len: "length idx = length sh" using valid_index_length[OF that] assms by simp
    have "idx ! k mod sh ! k < sh ! k" if "k < length sh" for k
    proof -
      have "idx ! k < sh ! k * ms ! k"
        using valid_index_nth[OF \<open>valid_index (map2 (*) sh ms) idx\<close>, of k] that assms by simp
      then have "0 < sh ! k" by (cases "sh ! k") simp_all
      then show ?thesis by simp
    qed
    then show ?thesis by (simp add: valid_index_iff_nth len)
  qed
  then show ?thesis using assms by (auto simp: tile_def intro!: tabulate_cong)
qed

lemma concat_t_tabulate:
  assumes "a < length sa" "sa[a := 0] = sb[a := 0]"
  shows "concat_t (tabulate sa f) (tabulate sb g) a
     = Inr (tabulate (sa[a := sa ! a + sb ! a])
         (\<lambda>idx. if idx ! a < sa ! a then f idx else g (idx[a := idx ! a - sa ! a])))"
proof -
  have len: "length sb = length sa"
    using arg_cong[OF assms(2), of length] by simp
  have other: "sb ! k = sa ! k" if "k \<noteq> a" "k < length sa" for k
    using arg_cong[OF assms(2), of "\<lambda>xs. xs ! k"] that by simp
  have left: "valid_index sa idx"
    if v: "valid_index (sa[a := sa ! a + sb ! a]) idx" and lt: "idx ! a < sa ! a" for idx
    using valid_index_update[OF v, of "idx ! a" "sa ! a" a] lt by simp
  have right: "valid_index sb (idx[a := idx ! a - sa ! a])"
    if v: "valid_index (sa[a := sa ! a + sb ! a]) idx" and ge: "\<not> idx ! a < sa ! a" for idx
  proof -
    have "idx ! a < sa ! a + sb ! a"
      using valid_index_nth[OF v, of a] assms(1) by simp
    then have "idx ! a - sa ! a < sb ! a" using ge by simp
    from valid_index_update[OF v this, of a]
    have "valid_index (sa[a := sb ! a]) (idx[a := idx ! a - sa ! a])" by simp
    moreover have "sa[a := sb ! a] = sb"
    proof (rule nth_equalityI)
      show "length (sa[a := sb ! a]) = length sb" by (simp add: len)
    next
      fix i assume "i < length (sa[a := sb ! a])"
      then show "sa[a := sb ! a] ! i = sb ! i"
        using other[of i] assms(1) by (cases "i = a") (simp_all add: nth_list_update)
    qed
    ultimately show ?thesis by simp
  qed
  show ?thesis
    using assms by (auto simp: concat_t_def left right intro!: tabulate_cong)
qed

lemma split_t_tabulate:
  assumes "a < length sh" "n1 + n2 = sh ! a"
  shows "split_t (tabulate sh f) n1 n2 a
     = Inr (tabulate (sh[a := n1]) f, tabulate (sh[a := n2]) (\<lambda>idx. f (idx[a := idx ! a + n1])))"
proof -
  have first: "valid_index sh idx" if v: "valid_index (sh[a := n1]) idx" for idx
  proof -
    have "idx ! a < sh ! a" using valid_index_nth[OF v, of a] assms by simp
    from valid_index_update[OF v this, of a] show ?thesis by simp
  qed
  have second: "valid_index sh (idx[a := idx ! a + n1])" if v: "valid_index (sh[a := n2]) idx" for idx
  proof -
    have "idx ! a + n1 < sh ! a" using valid_index_nth[OF v, of a] assms by simp
    from valid_index_update[OF v this, of a] show ?thesis by simp
  qed
  show ?thesis
    using assms by (auto simp: split_t_def first second intro!: tabulate_cong)
qed

lemma index_of_member: "k \<in> set ps \<Longrightarrow> index_of ps k < length ps \<and> ps ! index_of ps k = k"
  by (induction ps) auto

lemma transpose_t_tabulate:
  assumes "is_perm perm (length sh)"
  shows "transpose_t (tabulate sh f) perm
     = Inr (tabulate (map ((!) sh) perm)
         (\<lambda>idx. f (map (\<lambda>k. idx ! index_of perm k) [0..<length sh])))"
proof -
  have len: "length perm = length sh" and mem: "\<And>k. k < length sh \<Longrightarrow> k \<in> set perm"
    using assms by (auto simp: is_perm_def list_all_iff)
  have "valid_index sh (map (\<lambda>k. idx ! index_of perm k) [0..<length sh])"
    if v: "valid_index (map ((!) sh) perm) idx" for idx
  proof -
    have "idx ! index_of perm k < sh ! k" if k: "k < length sh" for k
    proof -
      have i: "index_of perm k < length perm" "perm ! index_of perm k = k"
        using index_of_member[OF mem[OF k]] by simp_all
      show ?thesis using valid_index_nth[OF v, of "index_of perm k"] i by simp
    qed
    then show ?thesis by (simp add: valid_index_iff_nth)
  qed
  then show ?thesis
    using assms by (auto simp: transpose_t_def comp_def intro!: tabulate_cong)
qed

lemma upt_4_plus: "[0..<4 + m] = [0, 1, 2, 3] @ map (\<lambda>i. i + 4) [0..<m]"
proof -
  have "[0..<4 + m] = [0..<4] @ [4..<4 + m]"
    by (rule upt_add_eq_append) simp
  moreover have "[4..<4 + m] = map (\<lambda>i. i + 4) [0..<m]"
    using map_add_upt[of 4 m] by (simp add: add.commute)
  moreover have "[0..<4] = [0, 1, 2, 3]" by (simp add: upt_rec)
  ultimately show ?thesis by simp
qed

lemma index_of_shifted:
  "l \<le> k \<Longrightarrow> k < m \<Longrightarrow> index_of (map (\<lambda>i. i + c) [l..<m]) (k + c) = k - l"
proof (induction "k - l" arbitrary: l)
  case 0
  then show ?case by (simp add: upt_rec[of l m])
next
  case (Suc d)
  then have "l < m" "l \<noteq> k" "Suc l \<le> k" "d = k - Suc l" by simp_all
  then show ?case using Suc.hyps(1)[of "Suc l"] Suc.prems by (simp add: upt_rec[of l m])
qed

lemma index_of_tail:
  assumes "p0 < 4" "p1 < 4" "p2 < 4" "p3 < 4" "k < m"
  shows "index_of (p0 # p1 # p2 # p3 # map (\<lambda>i. i + 4) [0..<m]) (k + 4) = k + 4"
  using assms index_of_shifted[of 0 k m 4] by simp

lemma nth_past_four: "(x0 # x1 # x2 # x3 # s) ! (k + 4) = s ! k"
  by (simp add: numeral_eq_Suc)

lemma map_nth_length: "length xs = m \<Longrightarrow> map ((!) xs) [0..<m] = xs"
  using map_nth[of xs] by auto

lemma gather_tail:
  assumes "p0 < 4" "p1 < 4" "p2 < 4" "p3 < 4" "length s = m"
  shows "map (\<lambda>k. (x0 # x1 # x2 # x3 # s) ! index_of (p0 # p1 # p2 # p3 # map (\<lambda>i. i + 4) [0..<m]) k)
           (map (\<lambda>i. i + 4) [0..<m]) = s"
proof -
  let ?G = "\<lambda>k. (x0 # x1 # x2 # x3 # s) ! index_of (p0 # p1 # p2 # p3 # map (\<lambda>i. i + 4) [0..<m]) k"
  have tail: "?G (k + 4) = s ! k" if "k < m" for k
    by (simp only: index_of_tail[OF assms(1-4) that] nth_past_four)
  have "map ?G (map (\<lambda>i. i + 4) [0..<m]) = map (\<lambda>k. ?G (k + 4)) [0..<m]"
    by (simp only: map_map comp_def)
  also have "\<dots> = map ((!) s) [0..<m]"
  proof (rule map_cong[OF refl])
    fix k assume "k \<in> set [0..<m]"
    then have "k < m" by simp
    then show "?G (k + 4) = s ! k" by (rule tail)
  qed
  also have "\<dots> = s" by (rule map_nth_length[OF assms(5)])
  finally show ?thesis .
qed

lemma gather_votes_t:
  "length s = m \<Longrightarrow>
   map (\<lambda>k. (a # b # i # j # s) ! index_of (votes_t_shape (4 + m)) k) [0..<4 + m] = b # i # j # a # s"
  using gather_tail[of 3 0 1 2 s m a b i j]
  by (simp add: upt_4_plus votes_t_shape_def)

lemma gather_r_t:
  "length s = m \<Longrightarrow>
   map (\<lambda>k. (b # i # j # a # s) ! index_of (r_t_shape (4 + m)) k) [0..<4 + m] = a # b # i # j # s"
  using gather_tail[of 1 2 3 0 s m b i j a]
  by (simp add: upt_4_plus r_t_shape_def)

lemma is_perm_votes_t: "is_perm (votes_t_shape (4 + m)) (4 + m)"
  by (auto simp: is_perm_def votes_t_shape_def list_all_iff upt_4_plus)

lemma is_perm_r_t: "is_perm (r_t_shape (4 + m)) (4 + m)"
  by (auto simp: is_perm_def r_t_shape_def list_all_iff upt_4_plus)

lemma shape_votes_t:
  "length sp = m \<Longrightarrow> map ((!) (B # I # J # A # sp)) (votes_t_shape (4 + m)) = A # B # I # J # sp"
  by (simp add: votes_t_shape_def comp_def map_nth_length)

lemma shape_r_t:
  "length sp = m \<Longrightarrow> map ((!) (A # B # I # J # sp)) (r_t_shape (4 + m)) = B # I # J # A # sp"
  by (simp add: r_t_shape_def comp_def map_nth_length)

lemma zeros_like_tabulate: "zeros_like (tabulate sh f) = tabulate sh (\<lambda>idx. Fin 0)"
  by (simp add: zeros_like_def)

lemma fsum_zeros: "fsum (map (\<lambda>k. Fin 0) xs) = Fin 0"
  using fsum_Fin[of "\<lambda>k. 0" xs] by simp

lemma softmax_tabulate_at:
  "2 < length sh \<Longrightarrow> softmax (tabulate sh lg) 2 = Inr (tabulate sh (softmax_at lg (sh ! 2)))"
  by (simp add: softmax_tabulate softmax_at_def[abs_def])

lemma leaky_routing_tabulate:
  assumes "2 < length sh" "sh ! 2 = J"
  shows "leaky_routing (tabulate sh lg) J = Inr (tabulate sh (leaky_at lg J))"
proof -
  define LL where "LL = (\<lambda>idx. if idx ! 2 < Suc 0 then Fin 0 else lg (idx[2 := idx ! 2 - Suc 0]))"
  define SM where
    "SM = (\<lambda>idx. fdiv (fexp (LL idx)) (fsum (map (\<lambda>k. fexp (LL (idx[2 := k]))) [0..<Suc J])))"
  have e: "sh[2 := Suc 0] ! 2 = Suc 0" "sh[2 := Suc J] ! 2 = Suc J" "sh[2 := J] = sh"
    using assms by (simp_all add: list_update_same_conv)
  have s1: "reduce_sum (zeros_like (tabulate sh lg)) 2 True = Inr (tabulate (sh[2 := Suc 0]) (\<lambda>idx. Fin 0))"
    using assms(1) by (simp add: zeros_like_tabulate reduce_sum_keep_tabulate fsum_zeros)
  have s2: "concat_t (tabulate (sh[2 := Suc 0]) (\<lambda>idx. Fin 0)) (tabulate sh lg) 2
      = Inr (tabulate (sh[2 := Suc J]) LL)"
    using assms concat_t_tabulate[of 2 "sh[2 := Suc 0]" sh "\<lambda>idx. Fin 0" lg]
    unfolding LL_def by (simp add: e cong: if_cong)
  have s3: "softmax (tabulate (sh[2 := Suc J]) LL) 2 = Inr (tabulate (sh[2 := Suc J]) SM)"
    using assms(1) softmax_tabulate[of 2 "sh[2 := Suc J]" LL]
    unfolding SM_def by (simp only: e length_list_update)
  have s4: "split_t (tabulate (sh[2 := Suc J]) SM) (Suc 0) J 2
      = Inr (tabulate (sh[2 := Suc 0]) SM, tabulate sh (\<lambda>idx. SM (idx[2 := Suc (idx ! 2)])))"
    using assms split_t_tabulate[of 2 "sh[2 := Suc J]" 1 J SM] by (simp add: e)
  have s5: "SM (idx[2 := Suc (idx ! 2)]) = leaky_at lg J idx" if "valid_index sh idx" for idx
  proof -
    have len: "2 < length idx" using valid_index_length[OF that] assms(1) by simp
    have up: "[0..<Suc J] = 0 # map Suc [0..<J]"
      by (simp add: upt_conv_Cons map_Suc_upt del: upt_Suc)
    show ?thesis
      using len unfolding leaky_at_def SM_def LL_def up
      by (simp add: comp_def list_update_same_conv del: upt_Suc)
  qed
  have "tabulate sh (\<lambda>idx. SM (idx[2 := Suc (idx ! 2)])) = tabulate sh (leaky_at lg J)"
    by (rule tabulate_cong) (rule s5)
  then show ?thesis
    by (simp add: leaky_routing_def s1 s2 s3 s4 del: upt_Suc)
qed

lemma replicate_4_plus: "replicate (4 + m) x = x # x # x # x # replicate m x"
  by (simp add: numeral_eq_Suc)

lemma map2_mult_ones: "map2 (*) sp (replicate (length sp) (Suc 0)) = sp"
  by (induction sp) simp_all

lemma map2_mod_valid: "valid_index sp s \<Longrightarrow> map2 (\<lambda>i d. i mod d) s sp = s"
  unfolding valid_index_def by (induction s sp rule: list_all2_induct) simp_all

lemma valid_index_4:
  assumes "valid_index (n0 # n1 # n2 # n3 # sp) idx"
  obtains x0 x1 x2 x3 s where "idx = x0 # x1 # x2 # x3 # s" "x0 < n0" "x1 < n1" "x2 < n2" "x3 < n3"
    "valid_index sp s" "length s = length sp"
proof -
  from assms obtain x0 x1 x2 x3 s where
    *: "idx = x0 # x1 # x2 # x3 # s" "x0 < n0" "x1 < n1" "x2 < n2" "x3 < n3" "valid_index sp s"
    by (auto simp: valid_index_Cons_iff)
  from *(6) have "length s = length sp" by (rule valid_index_length)
  with * show ?thesis by (rule that)
qed

lemma valid_index_3:
  assumes "valid_index (n0 # n1 # n2 # sp) idx"
  obtains x0 x1 x2 s where "idx = x0 # x1 # x2 # s" "x0 < n0" "x1 < n1" "x2 < n2"
    "valid_index sp s" "length s = length sp"
proof -
  from assms obtain x0 x1 x2 s where
    *: "idx = x0 # x1 # x2 # s" "x0 < n0" "x1 < n1" "x2 < n2" "valid_index sp s"
    by (auto simp: valid_index_Cons_iff)
  from *(5) have "length s = length sp" by (rule valid_index_length)
  with * show ?thesis by (rule that)
qed

lemma length_4_plus: "length sp = m \<Longrightarrow> length (n0 # n1 # n2 # n3 # sp) = 4 + m"
  by simp

lemma transpose_votes_closed:
  assumes "length sp = m"
  shows "transpose_t (tabulate (B # I # J # A # sp) v) (votes_t_shape (4 + m))
     = Inr (tabulate (A # B # I # J # sp) (\<lambda>idx. v (remove_at 0 (insert_at 4 (idx ! 0) idx))))"
proof -
  have "v (map (\<lambda>k. idx ! index_of (votes_t_shape (4 + m)) k) [0..<4 + m])
      = v (remove_at 0 (insert_at 4 (idx ! 0) idx))"
    if "valid_index (A # B # I # J # sp) idx" for idx
  proof -
    from that obtain a b i j s where idx: "idx = a # b # i # j # s" and len: "length s = length sp"
      by (rule valid_index_4)
    have "remove_at 0 (insert_at 4 (idx ! 0) idx) = b # i # j # a # s"
      by (simp add: idx remove_at_def insert_at_def)
    then show ?thesis
      using gather_votes_t[of s m a b i j] assms len by (simp only: idx)
  qed
  then have eq: "tabulate (A # B # I # J # sp) (\<lambda>idx. v (map (\<lambda>k. idx ! index_of (votes_t_shape (4 + m)) k) [0..<4 + m]))
     = tabulate (A # B # I # J # sp) (\<lambda>idx. v (remove_at 0 (insert_at 4 (idx ! 0) idx)))"
    by (rule tabulate_cong)
  have perm: "is_perm (votes_t_shape (4 + m)) (length (B # I # J # A # sp))"
    unfolding length_4_plus[OF assms] by (rule is_perm_votes_t)
  show ?thesis
    unfolding transpose_t_tabulate[OF perm] length_4_plus[OF assms] shape_votes_t[OF assms] eq ..
qed

lemma transpose_r_closed:
  assumes "length sp = m"
  shows "transpose_t (tabulate (A # B # I # J # sp) u) (r_t_shape (4 + m))
     = Inr (tabulate (B # I # J # A # sp) (\<lambda>idx. u (idx ! 3 # remove_at 3 idx)))"
proof -
  have "u (map (\<lambda>k. idx ! index_of (r_t_shape (4 + m)) k) [0..<4 + m]) = u (idx ! 3 # remove_at 3 idx)"
    if "valid_index (B # I # J # A # sp) idx" for idx
  proof -
    from that obtain b i j a s where idx: "idx = b # i # j # a # s" and len: "length s = length sp"
      by (rule valid_index_4)
    have "idx ! 3 # remove_at 3 idx = a # b # i # j # s"
      by (simp add: idx remove_at_def numeral_eq_Suc)
    then show ?thesis
      using gather_r_t[of s m b i j a] assms len by (simp only: idx)
  qed
  then have eq: "tabulate (B # I # J # A # sp) (\<lambda>idx. u (map (\<lambda>k. idx ! index_of (r_t_shape (4 + m)) k) [0..<4 + m]))
     = tabulate (B # I # J # A # sp) (\<lambda>idx. u (idx ! 3 # remove_at 3 idx))"
    by (rule tabulate_cong)
  have perm: "is_perm (r_t_shape (4 + m)) (length (A # B # I # J # sp))"
    unfolding length_4_plus[OF assms] by (rule is_perm_r_t)
  show ?thesis
    unfolding transpose_t_tabulate[OF perm] length_4_plus[OF assms] shape_r_t[OF assms] eq ..
qed

lemma routing_step_resolved:
  fixes nr B I J A sp v bi lk lg
  defines "act \<equiv> activation_at (preactivate_at (route_at lk lg J) v bi I) A"
  shows "routing_step (routing_closure nr B I J A sp v bi lk) (tabulate (B # I # J # sp) lg)
     = ebind (list_assign (replicate nr 1) 1 I) (\<lambda>tile_shape.
       ebind (tile (tabulate (B # 1 # J # A # sp) (\<lambda>idx. act (remove_at 1 idx))) tile_shape)
         (\<lambda>act_replicated.
       ebind (tmul (tabulate (B # I # J # A # sp) v) act_replicated) (\<lambda>agreement.
       ebind (reduce_sum agreement 3 False) (\<lambda>distances.
       ebind (tadd (tabulate (B # I # J # sp) lg) distances) (\<lambda>logits'.
       Inr (tabulate (B # J # A # sp) act, logits'))))))"
proof -
  let ?c = "routing_closure nr B I J A sp v bi lk"
  let ?m = "length sp"
  define R where "R = route_at lk lg J"
  define pre where "pre = preactivate_at R v bi I"
  have act: "act = activation_at pre A" by (simp add: act_def pre_def R_def)
  have r1: "(if c_leaky ?c then leaky_routing (tabulate (B # I # J # sp) lg) (c_out_dim ?c)
             else softmax (tabulate (B # I # J # sp) lg) 2) = Inr (tabulate (B # I # J # sp) R)"
    by (simp add: routing_closure_def R_def route_at_def leaky_routing_tabulate softmax_tabulate_at)
  have r2: "tmul (tabulate (B # I # J # sp) R) (c_votes_trans ?c)
      = Inr (tabulate (A # B # I # J # sp)
          (\<lambda>idx. fmul (R (drop 1 idx)) (v (remove_at 0 (insert_at 4 (idx ! 0) idx)))))"
    using binop_tabulate_prefix_left[of fmul "B # I # J # sp" R "[A]"]
    by (simp add: routing_closure_def tmul_def)
  have r3: "transpose_t (tabulate (A # B # I # J # sp)
          (\<lambda>idx. fmul (R (drop 1 idx)) (v (remove_at 0 (insert_at 4 (idx ! 0) idx))))) (c_r_t_shape ?c)
      = Inr (tabulate (B # I # J # A # sp) (\<lambda>idx. fmul (R (remove_at 3 idx)) (v idx)))"
  proof -
    have "fmul (R (drop 1 (idx ! 3 # remove_at 3 idx)))
            (v (remove_at 0 (insert_at 4 ((idx ! 3 # remove_at 3 idx) ! 0) (idx ! 3 # remove_at 3 idx))))
        = fmul (R (remove_at 3 idx)) (v idx)"
      if "valid_index (B # I # J # A # sp) idx" for idx
    proof -
      from that obtain b i j a s where idx: "idx = b # i # j # a # s"
        by (rule valid_index_4)
      show ?thesis by (simp add: idx remove_at_def insert_at_def numeral_eq_Suc)
    qed
    then have "tabulate (B # I # J # A # sp) (\<lambda>idx. fmul (R (drop 1 (idx ! 3 # remove_at 3 idx)))
            (v (remove_at 0 (insert_at 4 ((idx ! 3 # remove_at 3 idx) ! 0) (idx ! 3 # remove_at 3 idx)))))
        = tabulate (B # I # J # A # sp) (\<lambda>idx. fmul (R (remove_at 3 idx)) (v idx))"
      by (rule tabulate_cong)
    then show ?thesis
      using transpose_r_closed[of sp ?m A B I J
          "\<lambda>idx. fmul (R (drop 1 idx)) (v (remove_at 0 (insert_at 4 (idx ! 0) idx)))"]
      by (simp add: routing_closure_def)
  qed
  have r4: "reduce_sum (tabulate (B # I # J # A # sp) (\<lambda>idx. fmul (R (remove_at 3 idx)) (v idx))) 1 False
      = Inr (tabulate (B # J # A # sp)
          (\<lambda>idx. fsum (map (\<lambda>i. fmul (R (remove_at 3 (insert_at 1 i idx))) (v (insert_at 1 i idx))) [0..<I])))"
    using reduce_sum_drop_tabulate[of 1 "B # I # J # A # sp"
        "\<lambda>idx. fmul (R (remove_at 3 idx)) (v idx)"]
    by (simp add: remove_at_def)
  have r5: "tadd (tabulate (B # J # A # sp)
          (\<lambda>idx. fsum (map (\<lambda>i. fmul (R (remove_at 3 (insert_at 1 i idx))) (v (insert_at 1 i idx))) [0..<I])))
          (c_biases ?c) = Inr (tabulate (B # J # A # sp) pre)"
    using binop_tabulate_prefix_right[of fadd "[B]" "J # A # sp" _ bi]
    by (simp add: routing_closure_def tadd_def pre_def preactivate_at_def[abs_def])
  have r6: "squash (tabulate (B # J # A # sp) pre) = Inr (tabulate (B # J # A # sp) act)"
    using squash_tabulate[of "B # J # A # sp" pre]
    by (simp add: act activation_at_def[abs_def])
  have r7: "expand_dims (tabulate (B # J # A # sp) act) 1
      = Inr (tabulate (B # 1 # J # A # sp) (\<lambda>idx. act (remove_at 1 idx)))"
    using expand_dims_tabulate[of 1 "B # J # A # sp" act]
    by (simp add: insert_at_def)
  have fields: "c_num_ranks ?c = nr" "c_in_dim ?c = I" "c_votes ?c = tabulate (B # I # J # A # sp) v"
    by (simp_all add: routing_closure_def)
  show ?thesis
    unfolding routing_step_def
    by (simp only: r1 r2 r3 r4 r5 r6 r7 ebind_Inr fields)
qed

lemma routing_step_closed:
  fixes B I J A sp v bi lk lg
  defines "act \<equiv> activation_at (preactivate_at (route_at lk lg J) v bi I) A"
  shows "routing_step (routing_closure (4 + length sp) B I J A sp v bi lk) (tabulate (B # I # J # sp) lg)
     = Inr (tabulate (B # J # A # sp) act,
            tabulate (B # I # J # sp) (\<lambda>idx. fadd (lg idx) (agreement_at v act A idx)))"
proof -
  let ?m = "length sp"
  have r8: "list_assign (replicate (4 + ?m) 1) 1 I = Inr (1 # I # 1 # 1 # replicate ?m 1)"
    by (simp add: list_assign_def replicate_4_plus)
  have r9: "tile (tabulate (B # 1 # J # A # sp) (\<lambda>idx. act (remove_at 1 idx)))
          (1 # I # 1 # 1 # replicate ?m 1)
      = Inr (tabulate (B # I # J # A # sp) (\<lambda>idx. act (remove_at 1 idx)))"
  proof -
    have "act (remove_at 1 (map2 (\<lambda>i d. i mod d) idx (B # 1 # J # A # sp))) = act (remove_at 1 idx)"
      if "valid_index (B # I # J # A # sp) idx" for idx
    proof -
      from that obtain b i j a s where idx: "idx = b # i # j # a # s" "b < B" "j < J" "a < A"
        "valid_index sp s"
        by (rule valid_index_4)
      then show ?thesis by (simp add: remove_at_def map2_mod_valid)
    qed
    then have "tabulate (B # I # J # A # sp)
          (\<lambda>idx. act (remove_at 1 (map2 (\<lambda>i d. i mod d) idx (B # 1 # J # A # sp))))
        = tabulate (B # I # J # A # sp) (\<lambda>idx. act (remove_at 1 idx))"
      by (rule tabulate_cong)
    then show ?thesis
      using tile_tabulate[of "1 # I # 1 # 1 # replicate ?m 1" "B # 1 # J # A # sp"
          "\<lambda>idx. act (remove_at 1 idx)"]
      by (simp add: map2_mult_ones)
  qed
  have r10: "tmul (tabulate (B # I # J # A # sp) v) (tabulate (B # I # J # A # sp) (\<lambda>idx. act (remove_at 1 idx)))
      = Inr (tabulate (B # I # J # A # sp) (\<lambda>idx. fmul (v idx) (act (remove_at 1 idx))))"
    by (simp add: tmul_def binop_tabulate_same)
  have r11: "reduce_sum (tabulate (B # I # J # A # sp) (\<lambda>idx. fmul (v idx) (act (remove_at 1 idx)))) 3 False
      = Inr (tabulate (B # I # J # sp) (agreement_at v act A))"
    using reduce_sum_drop_tabulate[of 3 "B # I # J # A # sp"
        "\<lambda>idx. fmul (v idx) (act (remove_at 1 idx))"]
    by (simp add: remove_at_def agreement_at_def[abs_def] numeral_eq_Suc)
  have r12: "tadd (tabulate (B # I # J # sp) lg) (tabulate (B # I # J # sp) (agreement_at v act A))
      = Inr (tabulate (B # I # J # sp) (\<lambda>idx. fadd (lg idx) (agreement_at v act A idx)))"
    by (simp add: tadd_def binop_tabulate_same)
  show ?thesis
    unfolding routing_step_resolved act_def[symmetric]
    by (simp only: r8 r9 r10 r11 r12 ebind_Inr)
qed

lemma routing_step_index_error:
  "nr < 2 \<Longrightarrow>
   routing_step (routing_closure nr B I J A sp v bi lk) (tabulate (B # I # J # sp) lg) = Inl IndexError"
  unfolding routing_step_resolved by (simp add: list_assign_def)

section \<open>The loop and its unrolling\<close>

lemma body_closure_closed:
  assumes "well_formed votes" "well_formed biases"
    and "shape votes = B # I # J # A # sp" "shape biases = J # A # sp"
    and "nr = 4 + length sp \<or> (sp = [] \<and> nr \<le> 4)"
  shows "body_closure votes biases nr I J lk
     = Inr (routing_closure nr B I J A sp (tget votes) (tget biases) lk)"
proof -
  have v: "votes = tabulate (B # I # J # A # sp) (tget votes)"
    using tabulate_tget[OF assms(1)] assms(3) by simp
  have b: "biases = tabulate (J # A # sp) (tget biases)"
    using tabulate_tget[OF assms(2)] assms(4) by simp
  have p: "votes_t_shape nr = votes_t_shape (4 + length sp)"
    "r_t_shape nr = r_t_shape (4 + length sp)"
    using assms(5) by (auto simp: votes_t_shape_def r_t_shape_def)
  have "transpose_t votes (votes_t_shape nr)
      = Inr (tabulate (A # B # I # J # sp) (\<lambda>idx. tget votes (remove_at 0 (insert_at 4 (idx ! 0) idx))))"
    unfolding p using transpose_votes_closed[OF refl, of B I J A sp "tget votes"] v by simp
  then show ?thesis
    unfolding body_closure_def routing_closure_def p using v b by simp
qed

lemma while_loop_done:
  "\<not> int i < num_routing \<Longrightarrow>
   while_loop c num_routing i logits activations = Inr (i, logits, activations)"
  by (subst while_loop.simps) simp

lemma while_loop_step:
  "int i < num_routing \<Longrightarrow>
   while_loop c num_routing i logits activations
     = (case body c i logits activations of
          Inl e \<Rightarrow> Inl e
        | Inr (i', logits', activations') \<Rightarrow> while_loop c num_routing i' logits' activations')"
  by (subst while_loop.simps) simp

lemma while_loop_trace:
  assumes "i + n = N" "length ta = N"
  shows "while_loop c (int N) i logits ta
     = ebind (routing_trace c n logits) (\<lambda>(acts, final). Inr (N, final, take i ta @ map Some acts))"
  using assms
proof (induction n arbitrary: i logits ta)
  case 0
  then show ?case by (simp add: while_loop_done)
next
  case (Suc n)
  then have i: "i < N" "i < length ta" by simp_all
  show ?case
  proof (cases "routing_step c logits")
    case (Inl e)
    then show ?thesis using i by (simp add: while_loop_step body_def)
  next
    case (Inr r)
    obtain act l' where r: "r = (act, l')" by (cases r)
    have b: "body c i logits ta = Inr (Suc i, l', ta[i := Some act])"
      using Inr r i by (simp add: body_def ta_write_def)
    have "while_loop c (int N) (Suc i) l' (ta[i := Some act])
        = ebind (routing_trace c n l')
            (\<lambda>(acts, final). Inr (N, final, take (Suc i) (ta[i := Some act]) @ map Some acts))"
      using Suc.prems by (intro Suc.IH) simp_all
    moreover have "take (Suc i) (ta[i := Some act]) = take i ta @ [Some act]"
      using i by (simp add: take_Suc_conv_app_nth)
    ultimately show ?thesis
      using i Inr r b
      by (cases "routing_trace c n l'")
         (auto simp: while_loop_step split: prod.splits)
  qed
qed

lemma add_to_collection_all:
  assumes "\<And>k. k \<in> set ks \<Longrightarrow> k < length acts"
  shows "add_to_collection (map Some acts) ks visual = Inr (visual @ map ((!) acts) ks)"
  using assms
proof (induction ks arbitrary: visual)
  case Nil
  show ?case by simp
next
  case (Cons k ks)
  then have "k < length acts" by simp
  then have "ta_read (map Some acts) (int k) = Inr (acts ! k)"
    by (simp add: ta_read_def)
  then show ?case using Cons by simp
qed

lemma routing_trace_length:
  "routing_trace c n logits = Inr (acts, final) \<Longrightarrow> length acts = n"
  by (induction n arbitrary: logits acts)
     (auto simp: ebind_eq_Inr split: prod.splits)

lemma routing_trace_closed:
  "routing_trace (routing_closure (4 + length sp) B I J A sp v bi lk) n (tabulate (B # I # J # sp) lg)
     = Inr (map (tabulate (B # J # A # sp)) (fst (trace_at lk v bi I J A lg n)),
            tabulate (B # I # J # sp) (snd (trace_at lk v bi I J A lg n)))"
proof (induction n arbitrary: lg)
  case 0
  show ?case by simp
next
  case (Suc n)
  show ?case
    by (simp add: routing_step_closed Suc iteration_activation_def[symmetric]
        iteration_logits_def[symmetric] split_beta)
qed

lemma length_trace_at: "length (fst (trace_at lk v bi I J A lg n)) = n"
  by (induction n arbitrary: lg) (simp_all add: split_beta)

lemma trace_at_foldl:
  "snd (trace_at lk v bi I J A lg n) idx
     = foldl fadd (lg idx) (map (\<lambda>act. agreement_at v act A idx) (fst (trace_at lk v bi I J A lg n)))"
  by (induction n arbitrary: lg) (simp_all add: split_beta iteration_logits_def)

lemma agreement_at_tabulate:
  assumes "valid_index (B # I # J # sp) idx"
  shows "agreement_at v (tget (tabulate (B # J # A # sp) act)) A idx = agreement_at v act A idx"
proof -
  from assms obtain b i j s where idx: "idx = b # i # j # s" "b < B" "j < J" "valid_index sp s"
    by (rule valid_index_3)
  have "valid_index (B # J # A # sp) (remove_at 1 (insert_at 3 a idx))" if "a < A" for a
    using idx that by (simp add: remove_at_def insert_at_def numeral_eq_Suc)
  then show ?thesis
    unfolding agreement_at_def by (intro fsum_map_cong) simp
qed

lemma update_routing_trace:
  assumes "body_closure votes biases nr I J lk = Inr c"
    and "routing_step c (fill logit_shape (Fin 0)) = Inr traced"
    and "0 < N"
  shows "update_routing votes biases logit_shape nr I J lk (int N) visual
     = ebind (routing_trace c N (fill logit_shape (Fin 0)))
         (\<lambda>(acts, final). Inr (last acts, visual @ acts))"
proof (cases "routing_trace c N (fill logit_shape (Fin 0))")
  case (Inl e)
  then show ?thesis
    using assms while_loop_trace[of 0 N N "replicate N None" c "fill logit_shape (Fin 0)"]
    by (simp add: update_routing_def ta_new_def)
next
  case (Inr r)
  obtain acts final where r: "r = (acts, final)" by (cases r)
  have len: "length acts = N" using Inr r by (simp add: routing_trace_length)
  have loop: "while_loop c (int N) 0 (fill logit_shape (Fin 0)) (replicate N None)
      = Inr (N, final, map Some acts)"
    using while_loop_trace[of 0 N N "replicate N None" c "fill logit_shape (Fin 0)"] Inr r
    by simp
  have coll: "add_to_collection (map Some acts) [0..<N] visual = Inr (visual @ acts)"
    using add_to_collection_all[of "[0..<N]" acts visual] len map_nth[of acts] by simp
  have "acts \<noteq> []" using len assms(3) by auto
  then have "acts ! (N - 1) = last acts" using len by (simp add: last_conv_nth)
  then have read: "ta_read (map Some acts) (int N - 1) = Inr (last acts)"
    using len assms(3) by (simp add: ta_read_def nat_diff_distrib' flip: of_nat_diff)
  show ?thesis
    using assms Inr r loop coll read
    by (simp add: update_routing_def ta_new_def)
qed

lemma update_routing_not_positive:
  assumes "body_closure votes biases nr I J lk = Inr c"
    and "routing_step c (fill logit_shape (Fin 0)) = Inr traced"
    and "num_routing \<le> 0"
  shows "update_routing votes biases logit_shape nr I J lk num_routing visual = Inl TensorArrayError"
  using assms
  by (cases "num_routing < 0")
     (simp_all add: update_routing_def ta_new_def while_loop_done ta_read_def)

section \<open>The vote transform of the fully connected layer\<close>

lemma wx_plus_b_flat:
  fixes f w :: "nat list \<Rightarrow> fl"
  shows "ebind (expand_dims (tabulate [B, I, C] f) (- 1)) (\<lambda>expanded.
     ebind (tile expanded [1, 1, 1, N]) (\<lambda>in_tiled.
     ebind (tmul in_tiled (tabulate [I, C, N] w)) (\<lambda>weighted.
     reduce_sum weighted 2 False)))
   = Inr (tabulate [B, I, N]
       (\<lambda>idx. fsum (map (\<lambda>c. fmul (f (butlast (insert_at 2 c idx))) (w (drop 1 (insert_at 2 c idx))))
                     [0..<C])))"
proof -
  have e1: "expand_dims (tabulate [B, I, C] f) (- 1)
      = Inr (tabulate [B, I, C, 1] (\<lambda>idx. f (butlast idx)))"
    using expand_dims_last_tabulate[of "[B, I, C]" f] by simp
  have e2: "tile (tabulate [B, I, C, 1] (\<lambda>idx. f (butlast idx))) [1, 1, 1, N]
      = Inr (tabulate [B, I, C, N] (\<lambda>idx. f (butlast idx)))"
  proof -
    have "f (butlast (map2 (\<lambda>i d. i mod d) idx [B, I, C, 1])) = f (butlast idx)"
      if "valid_index [B, I, C, N] idx" for idx
    proof -
      from that obtain b i c n where "idx = [b, i, c, n]" "b < B" "i < I" "c < C"
        by (auto simp: valid_index_Cons_iff)
      then show ?thesis by simp
    qed
    then have "tabulate [B, I, C, N] (\<lambda>idx. f (butlast (map2 (\<lambda>i d. i mod d) idx [B, I, C, 1])))
        = tabulate [B, I, C, N] (\<lambda>idx. f (butlast idx))"
      by (rule tabulate_cong)
    then show ?thesis
      using tile_tabulate[of "[1, 1, 1, N]" "[B, I, C, 1]" "\<lambda>idx. f (butlast idx)"] by simp
  qed
  have e3: "tmul (tabulate [B, I, C, N] (\<lambda>idx. f (butlast idx))) (tabulate [I, C, N] w)
      = Inr (tabulate [B, I, C, N] (\<lambda>idx. fmul (f (butlast idx)) (w (drop 1 idx))))"
    using binop_tabulate_prefix_right[of fmul "[B]" "[I, C, N]" "\<lambda>idx. f (butlast idx)" w]
    by (simp add: tmul_def)
  have e4: "reduce_sum (tabulate [B, I, C, N] (\<lambda>idx. fmul (f (butlast idx)) (w (drop 1 idx)))) 2 False
      = Inr (tabulate [B, I, N]
          (\<lambda>idx. fsum (map (\<lambda>c. fmul (f (butlast (insert_at 2 c idx))) (w (drop 1 (insert_at 2 c idx))))
                     [0..<C])))"
    using reduce_sum_drop_tabulate[of 2 "[B, I, C, N]"
        "\<lambda>idx. fmul (f (butlast idx)) (w (drop 1 idx))"]
    by (simp add: remove_at_def)
  show ?thesis by (simp only: e1 e2 e3 e4 ebind_Inr)
qed

lemma flat_index_reshape:
  "a < A \<Longrightarrow> flat_index [B, I, J, A] [b, i, j, a] = flat_index [B, I, J * A] [b, i, j * A + a]"
  by (simp add: algebra_simps)

lemma wx_plus_b_closed:
  assumes wf: "well_formed in_tensor" "well_formed weights"
    and sh: "shape in_tensor = [B, I, C]" "shape weights = [I, C, J * A]"
    and pos: "0 < I" "0 < J" "0 < A"
  shows "\<exists>votes. wx_plus_b in_tensor weights I J A = Inr votes \<and> shape votes = [B, I, J, A] \<and>
      well_formed votes \<and>
      (\<forall>b i j a. b < B \<and> i < I \<and> j < J \<and> a < A \<longrightarrow>
         tget votes [b, i, j, a] =
           fsum (map (\<lambda>c. fmul (tget in_tensor [b, i, c]) (tget weights [i, c, j * A + a])) [0..<C]))"
proof -
  let ?g = "\<lambda>idx. fsum (map (\<lambda>c. fmul (tget in_tensor (butlast (insert_at 2 c idx)))
      (tget weights (drop 1 (insert_at 2 c idx)))) [0..<C])"
  let ?flat = "tabulate [B, I, J * A] ?g"
  let ?votes = "Tensor [B, I, J, A] (data ?flat)"
  have i: "in_tensor = tabulate [B, I, C] (tget in_tensor)"
    using tabulate_tget[OF wf(1)] sh(1) by simp
  have w: "weights = tabulate [I, C, J * A] (tget weights)"
    using tabulate_tget[OF wf(2)] sh(2) by simp
  have flat: "ebind (expand_dims in_tensor (- 1)) (\<lambda>expanded.
     ebind (tile expanded [1, 1, 1, J * A]) (\<lambda>in_tiled.
     ebind (tmul in_tiled weights) (\<lambda>weighted.
     reduce_sum weighted 2 False))) = Inr ?flat"
    using wx_plus_b_flat[of B I C "tget in_tensor" "J * A" "tget weights"] i w by simp
  have "wx_plus_b in_tensor weights I J A
      = ebind (ebind (expand_dims in_tensor (- 1)) (\<lambda>expanded.
          ebind (tile expanded [1, 1, 1, J * A]) (\<lambda>in_tiled.
          ebind (tmul in_tiled weights) (\<lambda>weighted.
          reduce_sum weighted 2 False)))) (\<lambda>votes_flat. reshape_infer votes_flat [I, J, A])"
    unfolding wx_plus_b_def
    by (cases "expand_dims in_tensor (- 1)"; simp;
        cases "tile (projr (expand_dims in_tensor (- 1))) [1, 1, 1, J * A]"; simp;
        cases "tmul (projr (tile (projr (expand_dims in_tensor (- 1))) [1, 1, 1, J * A])) weights"; simp)
  also have "\<dots> = reshape_infer ?flat [I, J, A]" by (simp only: flat ebind_Inr)
  also have "\<dots> = Inr ?votes"
    using pos by (simp add: reshape_infer_def Let_def)
  finally have res: "wx_plus_b in_tensor weights I J A = Inr ?votes" .
  have wfv: "well_formed ?votes"
    using well_formed_tabulate[of "[B, I, J * A]" ?g]
    by (simp add: well_formed_def tabulate_def)
  have elem: "tget ?votes [b, i, j, a] =
      fsum (map (\<lambda>c. fmul (tget in_tensor [b, i, c]) (tget weights [i, c, j * A + a])) [0..<C])"
    if "b < B" "i < I" "j < J" "a < A" for b i j a
  proof -
    have "j * A + a < J * A"
    proof -
      have "j * A + a < j * A + A" using that(4) by simp
      also have "\<dots> = Suc j * A" by simp
      also have "\<dots> \<le> J * A" using that(3) by (intro mult_le_mono1) simp
      finally show ?thesis .
    qed
    then have valid: "valid_index [B, I, J * A] [b, i, j * A + a]" using that by simp
    have "tget ?votes [b, i, j, a] = tget ?flat [b, i, j * A + a]"
      unfolding tget_def using flat_index_reshape[OF that(4), of B I J b i j]
      by (simp only: tensor.sel shape_tabulate)
    also have "\<dots> = ?g [b, i, j * A + a]" using valid by (rule tget_tabulate)
    also have "\<dots> = fsum (map (\<lambda>c. fmul (tget in_tensor [b, i, c]) (tget weights [i, c, j * A + a])) [0..<C])"
      by (simp add: insert_at_def)
    finally show ?thesis .
  qed
  show ?thesis
    using res wfv elem by (intro exI[of _ ?votes]) simp
qed

text \<open>
  Claim C7. For an input of shape \<open>[batch, in_dim, in_atoms]\<close> and weights of shape
  \<open>[in_dim, in_atoms, out_dim * out_atoms]\<close> (all of \<open>in_dim\<close>, \<open>out_dim\<close>,
  \<open>out_atoms\<close> positive), the vote transform of \<^verbatim>\<open>capsule\<close> (tile the expanded
  input, multiply element-wise with the weights, reduce-sum over \<open>in_atoms\<close>, reshape)
  returns votes of shape \<open>[batch, in_dim, out_dim, out_atoms]\<close> with
  \<open>votes[b, i, j, a] = sum over c of input[b, i, c] * weights[i, c, j * out_atoms + a]\<close>:
  input capsule \<open>i\<close> only meets the weight slice \<open>i\<close>.
\<close>

theorem dense_vote_transform:
  assumes "well_formed in_tensor" "well_formed weights"
    and "shape in_tensor = [B, I, C]" "shape weights = [I, C, J * A]"
    and "0 < I" "0 < J" "0 < A"
  shows "\<exists>votes. wx_plus_b in_tensor weights I J A = Inr votes \<and> shape votes = [B, I, J, A] \<and>
      well_formed votes \<and>
      (\<forall>b i j a. b < B \<and> i < I \<and> j < J \<and> a < A \<longrightarrow>
         tget votes [b, i, j, a] =
           fsum (map (\<lambda>c. fmul (tget in_tensor [b, i, c]) (tget weights [i, c, j * A + a])) [0..<C]))"
  using assms by (rule wx_plus_b_closed)

theorem dense_vote_transform_witness:
  "well_formed (Tensor [1, 1, 2] [Fin 1, Fin 2]) \<and>
   well_formed (Tensor [1, 2, 1] [Fin 3, Fin 4]) \<and>
   shape (Tensor [1, 1, 2] [Fin 1, Fin 2]) = [1, 1, 2] \<and>
   shape (Tensor [1, 2, 1] [Fin 3, Fin 4]) = [1, 2, 1 * 1] \<and>
   (\<exists>votes. wx_plus_b (Tensor [1, 1, 2] [Fin 1, Fin 2]) (Tensor [1, 2, 1] [Fin 3, Fin 4]) 1 1 1
        = Inr votes \<and>
      shape votes = [1, 1, 1, 1] \<and> tget votes [0, 0, 0, 0] = Fin 11)"
proof -
  let ?x = "Tensor [1, 1, 2] [Fin 1, Fin 2]" and ?w = "Tensor [1, 2, 1] [Fin 3, Fin 4]"
  have h1: "well_formed ?x" and h2: "well_formed ?w" by (simp_all add: well_formed_def)
  have h3: "shape ?x = [1, 1, 2]" and h4: "shape ?w = [1, 2, 1 * 1]" by simp_all
  from dense_vote_transform[OF h1 h2 h3 h4] obtain votes where
    v: "wx_plus_b ?x ?w 1 1 1 = Inr votes" "shape votes = [1, 1, 1, 1]"
      "\<forall>b i j a. b < 1 \<and> i < 1 \<and> j < 1 \<and> a < 1 \<longrightarrow>
         tget votes [b, i, j, a] =
           fsum (map (\<lambda>c. fmul (tget ?x [b, i, c]) (tget ?w [i, c, j * 1 + a])) [0..<2])"
    by auto
  from v(3)[rule_format, of 0 0 0 0] have "tget votes [0, 0, 0, 0] = Fin 11"
    by (simp add: tget_def upt_rec)
  with v h1 h2 h3 h4 show ?thesis by blast
qed

section \<open>The fully connected layer\<close>

lemma fill_tabulate: "fill sh x = tabulate sh (\<lambda>idx. x)"
  by (simp add: fill_def)

lemma routing_step_Inl_no_ranks:
  "c_num_ranks c < 2 \<Longrightarrow> \<exists>e. routing_step c logits = Inl e"
  unfolding routing_step_def
  by (auto simp: ebind_def list_assign_def split: sum.splits)

lemma update_routing_no_ranks:
  "num_ranks < 2 \<Longrightarrow>
   \<exists>e. update_routing votes biases logit_shape num_ranks in_dim out_dim leaky num_routing visual = Inl e"
proof (cases "body_closure votes biases num_ranks in_dim out_dim leaky")
  case (Inl e)
  then show ?thesis by (simp add: update_routing_def)
next
  case (Inr c)
  assume "num_ranks < 2"
  then have "c_num_ranks c < 2"
    using Inr by (auto simp: body_closure_def ebind_eq_Inr)
  from routing_step_Inl_no_ranks[OF this, of "fill logit_shape (Fin 0)"]
  show ?thesis using Inr by (auto simp: update_routing_def)
qed

lemma capsule_never_returns:
  "\<exists>e. capsule in_tensor weights biases in_dim in_atoms out_dim out_atoms leaky num_routing visual
     = Inl e"
proof (cases "wx_plus_b in_tensor weights in_dim out_dim out_atoms")
  case (Inl e)
  then show ?thesis by (simp add: capsule_def)
next
  case (Inr votes_reshaped)
  show ?thesis
  proof (cases "shape in_tensor")
    case Nil
    then show ?thesis using Inr by (simp add: capsule_def)
  next
    case (Cons batch rest)
    then show ?thesis
      using Inr update_routing_no_ranks[of 1 votes_reshaped biases "[batch, in_dim, out_dim]"
          in_dim out_dim leaky num_routing visual]
      by (simp add: capsule_def)
  qed
qed

text \<open>
  Claim C4. \<^verbatim>\<open>capsule\<close> calls \<^verbatim>\<open>_update_routing\<close> with \<^verbatim>\<open>num_ranks=1\<close> (the
  docstring of \<^verbatim>\<open>_update_routing\<close> asks for 4 in a fully connected layer), so
  \<^verbatim>\<open>tile_shape\<close> is the one-element list \<^verbatim>\<open>[1]\<close> and the assignment
  \<^verbatim>\<open>tile_shape[1] = in_dim\<close> raises IndexError while the graph is built: for every input
  of shape \<open>[batch, in_dim, in_atoms]\<close> with weights and biases of the shapes the layer
  creates, and whatever \<open>leaky\<close> and \<open>num_routing\<close> are, \<^verbatim>\<open>capsule\<close> raises IndexError
  instead of returning an activation tensor of shape \<open>[batch, out_dim, out_atoms]\<close>.
\<close>

theorem capsule_raises_index_error:
  assumes wf: "well_formed in_tensor" "well_formed weights" "well_formed biases"
    and sh: "shape in_tensor = [B, I, C]" "shape weights = [I, C, J * A]" "shape biases = [J, A]"
    and pos: "0 < I" "0 < J" "0 < A"
  shows "capsule in_tensor weights biases I C J A leaky num_routing visual = Inl IndexError"
proof -
  from wx_plus_b_closed[OF wf(1,2) sh(1,2) pos] obtain votes where
    v: "wx_plus_b in_tensor weights I J A = Inr votes" "shape votes = [B, I, J, A]"
      "well_formed votes"
    by blast
  have c: "body_closure votes biases 1 I J leaky
      = Inr (routing_closure 1 B I J A [] (tget votes) (tget biases) leaky)"
    using v wf(3) sh(3) by (intro body_closure_closed) simp_all
  have "routing_step (routing_closure 1 B I J A [] (tget votes) (tget biases) leaky)
      (fill [B, I, J] (Fin 0)) = Inl IndexError"
    unfolding fill_tabulate by (rule routing_step_index_error) simp
  then show ?thesis
    using v c sh(1) by (simp add: capsule_def update_routing_def)
qed

theorem capsule_raises_index_error_witness:
  "well_formed (Tensor [1, 1, 2] [Fin 1, Fin 2]) \<and>
   well_formed (Tensor [1, 2, 1] [Fin 3, Fin 4]) \<and>
   well_formed (Tensor [1, 1] [Fin 0]) \<and>
   capsule (Tensor [1, 1, 2] [Fin 1, Fin 2]) (Tensor [1, 2, 1] [Fin 3, Fin 4])
     (Tensor [1, 1] [Fin 0]) 1 2 1 1 False 1 [] = Inl IndexError"
proof -
  let ?x = "Tensor [1, 1, 2] [Fin 1, Fin 2]" and ?w = "Tensor [1, 2, 1] [Fin 3, Fin 4]"
  let ?b = "Tensor [1, 1] [Fin 0]"
  have h: "well_formed ?x" "well_formed ?w" "well_formed ?b" by (simp_all add: well_formed_def)
  have s: "shape ?x = [1, 1, 2]" "shape ?w = [1, 2, 1 * 1]" "shape ?b = [1, 1]" by simp_all
  from capsule_raises_index_error[OF h s, of False 1 "[]"] h show ?thesis by simp
qed

section \<open>The routing engine\<close>

lemma routing_inputs_closure:
  assumes "routing_inputs votes biases logit_shape num_ranks in_dim out_dim B A sp"
  shows "body_closure votes biases num_ranks in_dim out_dim leaky
      = Inr (routing_closure (4 + length sp) B in_dim out_dim A sp (tget votes) (tget biases) leaky)"
  using assms body_closure_closed[of votes biases B in_dim out_dim A sp num_ranks leaky]
  by (simp add: routing_inputs_def)

lemma routing_inputs_logits:
  assumes "routing_inputs votes biases logit_shape num_ranks in_dim out_dim B A sp"
  shows "fill logit_shape (Fin 0) = tabulate (B # in_dim # out_dim # sp) (\<lambda>idx. Fin 0)"
  using assms by (simp add: routing_inputs_def fill_tabulate)

lemma update_routing_closed:
  assumes "routing_inputs votes biases logit_shape num_ranks in_dim out_dim B A sp" "0 < N"
  shows "update_routing votes biases logit_shape num_ranks in_dim out_dim leaky (int N) visual
     = Inr (last (map (tabulate (B # out_dim # A # sp))
                   (fst (trace_at leaky (tget votes) (tget biases) in_dim out_dim A (\<lambda>idx. Fin 0) N))),
            visual @ map (tabulate (B # out_dim # A # sp))
                   (fst (trace_at leaky (tget votes) (tget biases) in_dim out_dim A (\<lambda>idx. Fin 0) N)))"
proof -
  note c = routing_inputs_closure[OF assms(1), of leaky] routing_inputs_logits[OF assms(1)]
  have step: "routing_step (routing_closure (4 + length sp) B in_dim out_dim A sp (tget votes) (tget biases) leaky)
      (fill logit_shape (Fin 0)) = Inr (tabulate (B # out_dim # A # sp)
          (iteration_activation leaky (tget votes) (tget biases) in_dim out_dim A (\<lambda>idx. Fin 0)),
        tabulate (B # in_dim # out_dim # sp)
          (iteration_logits leaky (tget votes) (tget biases) in_dim out_dim A (\<lambda>idx. Fin 0)))"
    unfolding c(2) routing_step_closed iteration_activation_def iteration_logits_def ..
  show ?thesis
    unfolding update_routing_trace[OF c(1) step assms(2)]
    unfolding c(2) routing_trace_closed by simp
qed

text \<open>
  Claim C6. For inputs whose shapes fit and \<open>num_routing \<ge> 1\<close>, the loop of
  \<^verbatim>\<open>_update_routing\<close> ends with the counter at \<open>num_routing\<close>, which \<^verbatim>\<open>_body\<close>
  increments once per iteration from 0; the \<^verbatim>\<open>TensorArray\<close> then holds exactly the
  activations of these \<open>num_routing\<close> successive iterations; \<^verbatim>\<open>_update_routing\<close> returns
  the last of them and appends all of them, in order, to the collection \<^verbatim>\<open>'visual'\<close>.
\<close>

theorem routing_loop_iterations:
  assumes "routing_inputs votes biases logit_shape num_ranks in_dim out_dim B A sp"
    and "1 \<le> num_routing"
  shows "\<exists>c acts logits.
     body_closure votes biases num_ranks in_dim out_dim leaky = Inr c \<and>
     ta_new num_routing = Inr (replicate (nat num_routing) None) \<and>
     while_loop c num_routing 0 (fill logit_shape (Fin 0)) (replicate (nat num_routing) None)
       = Inr (nat num_routing, logits, map Some acts) \<and>
     routing_trace c (nat num_routing) (fill logit_shape (Fin 0)) = Inr (acts, logits) \<and>
     length acts = nat num_routing \<and>
     update_routing votes biases logit_shape num_ranks in_dim out_dim leaky num_routing visual
       = Inr (last acts, visual @ acts)"
proof -
  define N where "N = nat num_routing"
  have N: "num_routing = int N" "0 < N" using assms(2) by (simp_all add: N_def)
  let ?c = "routing_closure (4 + length sp) B in_dim out_dim A sp (tget votes) (tget biases) leaky"
  let ?tr = "trace_at leaky (tget votes) (tget biases) in_dim out_dim A (\<lambda>idx. Fin 0) N"
  let ?acts = "map (tabulate (B # out_dim # A # sp)) (fst ?tr)"
  let ?logits = "tabulate (B # in_dim # out_dim # sp) (snd ?tr)"
  note c = routing_inputs_closure[OF assms(1), of leaky] routing_inputs_logits[OF assms(1)]
  have trace: "routing_trace ?c N (fill logit_shape (Fin 0)) = Inr (?acts, ?logits)"
    unfolding c(2) by (rule routing_trace_closed)
  have loop: "while_loop ?c (int N) 0 (fill logit_shape (Fin 0)) (replicate N None)
      = Inr (N, ?logits, map Some ?acts)"
    using while_loop_trace[of 0 N N "replicate N None" ?c "fill logit_shape (Fin 0)"] trace
    by simp
  have len: "length ?acts = N" by (simp add: length_trace_at)
  show ?thesis
    unfolding N(1) nat_int
    using c(1) trace loop len update_routing_closed[OF assms(1) N(2), of leaky visual]
    by (intro exI[of _ ?c] exI[of _ ?acts] exI[of _ ?logits]) (simp add: ta_new_def)
qed

theorem routing_loop_iterations_witness:
  "routing_inputs (Tensor [1, 1, 2, 1, 1, 1] [Fin 1, Fin 2]) (Tensor [2, 1, 1, 1] [Fin 0, Fin 0])
     [1, 1, 2, 1, 1] 6 1 2 1 1 [1, 1] \<and>
   (\<exists>c acts logits.
      body_closure (Tensor [1, 1, 2, 1, 1, 1] [Fin 1, Fin 2]) (Tensor [2, 1, 1, 1] [Fin 0, Fin 0])
        6 1 2 False = Inr c \<and>
      while_loop c 3 0 (fill [1, 1, 2, 1, 1] (Fin 0)) (replicate 3 None)
        = Inr (3, logits, map Some acts) \<and>
      length acts = 3 \<and>
      update_routing (Tensor [1, 1, 2, 1, 1, 1] [Fin 1, Fin 2]) (Tensor [2, 1, 1, 1] [Fin 0, Fin 0])
        [1, 1, 2, 1, 1] 6 1 2 False 3 [] = Inr (last acts, acts))"
proof -
  let ?v = "Tensor [1, 1, 2, 1, 1, 1] [Fin 1, Fin 2]" and ?b = "Tensor [2, 1, 1, 1] [Fin 0, Fin 0]"
  have h: "routing_inputs ?v ?b [1, 1, 2, 1, 1] 6 1 2 1 1 [1, 1]"
    by (simp add: routing_inputs_def well_formed_def)
  have n: "(1::int) \<le> 3" by simp
  from routing_loop_iterations[OF h n, of False "[]"] h show ?thesis
    by (auto simp: numeral_3_eq_3)
qed

lemma add_to_collection_append:
  "add_to_collection ta ks visual
     = ebind (add_to_collection ta ks []) (\<lambda>xs. Inr (visual @ xs))"
proof (induction ks arbitrary: visual)
  case Nil
  show ?case by simp
next
  case (Cons k ks)
  show ?case
  proof (cases "ta_read ta (int k)")
    case (Inl e)
    then show ?thesis by simp
  next
    case (Inr a)
    show ?thesis
      using Cons[of "visual @ [a]"] Cons[of "[a]"] Inr
      by (cases "add_to_collection ta ks []") simp_all
  qed
qed


lemma tabulate_empty_dim: "tabulate (B # 0 # sh) f = Tensor (B # 0 # sh) []"
  by (simp add: tabulate_def)

lemma update_routing_graph_built:
  assumes "routing_inputs votes biases logit_shape num_ranks in_dim out_dim B A sp"
  shows "\<exists>c traced. body_closure votes biases num_ranks in_dim out_dim leaky = Inr c \<and>
      routing_step c (fill logit_shape (Fin 0)) = Inr traced"
proof -
  have "\<exists>traced. routing_step
      (routing_closure (4 + length sp) B in_dim out_dim A sp (tget votes) (tget biases) leaky)
      (fill logit_shape (Fin 0)) = Inr traced"
    unfolding routing_inputs_logits[OF assms] routing_step_closed by blast
  then show ?thesis using routing_inputs_closure[OF assms, of leaky] by blast
qed

lemma update_routing_zero_iterations:
  assumes "routing_inputs votes biases logit_shape num_ranks in_dim out_dim B A sp"
    and "num_routing \<le> 0"
  shows "update_routing votes biases logit_shape num_ranks in_dim out_dim leaky num_routing visual
     = Inl TensorArrayError"
  using update_routing_graph_built[OF assms(1), of leaky] assms(2)
  by (auto intro: update_routing_not_positive)

text \<open>
  Claim C8 fails as stated: leaky routing with \<open>out_dim = 0\<close> (and shapes that fit) is not
  rejected, \<^verbatim>\<open>_update_routing\<close> returns an activation tensor with no output capsule; and
  with \<open>num_routing = 0\<close> the error is the one of the \<^verbatim>\<open>TensorArray\<close> read at index
  \<open>-1\<close> when the graph is run, not one raised while the graph is built.
\<close>

theorem update_routing_accepts_invalid_configuration:
  "update_routing (Tensor [1, 1, 0, 1] []) (Tensor [0, 1] []) [1, 1, 0] 4 1 0 True 1 []
     = Inr (Tensor [1, 0, 1] [], [Tensor [1, 0, 1] []]) \<and>
   update_routing (Tensor [1, 1, 2, 1] [Fin 1, Fin 2]) (Tensor [2, 1] [Fin 0, Fin 0])
     [1, 1, 2] 4 1 2 False 0 [] = Inl TensorArrayError"
proof
  have "routing_inputs (Tensor [1, 1, 0, 1] []) (Tensor [0, 1] []) [1, 1, 0] 4 1 0 1 1 []"
    by (simp add: routing_inputs_def well_formed_def)
  from update_routing_closed[OF this, of 1 True "[]"]
  show "update_routing (Tensor [1, 1, 0, 1] []) (Tensor [0, 1] []) [1, 1, 0] 4 1 0 True 1 []
      = Inr (Tensor [1, 0, 1] [], [Tensor [1, 0, 1] []])"
    by (simp add: tabulate_empty_dim)
next
  have "routing_inputs (Tensor [1, 1, 2, 1] [Fin 1, Fin 2]) (Tensor [2, 1] [Fin 0, Fin 0])
      [1, 1, 2] 4 1 2 1 1 []"
    by (simp add: routing_inputs_def well_formed_def)
  then show "update_routing (Tensor [1, 1, 2, 1] [Fin 1, Fin 2]) (Tensor [2, 1] [Fin 0, Fin 0])
      [1, 1, 2] 4 1 2 False 0 [] = Inl TensorArrayError"
    by (rule update_routing_zero_iterations) simp
qed

text \<open>
  Claim C8, amended. \<^verbatim>\<open>_update_routing\<close> validates neither \<open>num_routing\<close> nor
  \<open>out_dim\<close>. For inputs whose shapes fit: with \<open>num_routing < 1\<close> the graph is built (the
  tensor operations of the body succeed) and the failure is the \<^verbatim>\<open>TensorArray\<close>'s when
  the graph is run (a negative size, or the read at index \<open>num_routing - 1 = -1\<close> of an
  empty array); with leaky routing, \<open>out_dim = 0\<close> and \<open>num_routing \<ge> 1\<close> an activation
  tensor with zero output capsules is returned.
\<close>

theorem update_routing_no_validation:
  assumes "routing_inputs votes biases logit_shape num_ranks in_dim out_dim B A sp"
  shows "(num_routing \<le> 0 \<longrightarrow>
       (\<exists>c traced. body_closure votes biases num_ranks in_dim out_dim leaky = Inr c \<and>
          routing_step c (fill logit_shape (Fin 0)) = Inr traced) \<and>
       update_routing votes biases logit_shape num_ranks in_dim out_dim leaky num_routing visual
         = Inl TensorArrayError) \<and>
     (1 \<le> num_routing \<and> leaky \<and> out_dim = 0 \<longrightarrow>
       (\<exists>activation visual'.
          update_routing votes biases logit_shape num_ranks in_dim out_dim leaky num_routing visual
            = Inr (activation, visual') \<and>
          shape activation = B # 0 # A # sp))"
proof (intro conjI impI)
  show "\<exists>c traced. body_closure votes biases num_ranks in_dim out_dim leaky = Inr c \<and>
      routing_step c (fill logit_shape (Fin 0)) = Inr traced"
    using assms by (rule update_routing_graph_built)
  assume "num_routing \<le> 0"
  with assms show "update_routing votes biases logit_shape num_ranks in_dim out_dim leaky
      num_routing visual = Inl TensorArrayError"
    by (rule update_routing_zero_iterations)
next
  assume a: "1 \<le> num_routing \<and> leaky \<and> out_dim = 0"
  define N where "N = nat num_routing"
  have N: "num_routing = int N" "0 < N" using a by (simp_all add: N_def)
  let ?acts = "map (tabulate (B # out_dim # A # sp))
      (fst (trace_at leaky (tget votes) (tget biases) in_dim out_dim A (\<lambda>idx. Fin 0) N))"
  have "length ?acts = N" by (simp add: length_trace_at)
  then have "?acts \<noteq> []" using N(2) by auto
  then have "last ?acts \<in> set ?acts" by (rule last_in_set)
  then have "shape (last ?acts) = B # out_dim # A # sp" by auto
  then show "\<exists>activation visual'.
      update_routing votes biases logit_shape num_ranks in_dim out_dim leaky num_routing visual
        = Inr (activation, visual') \<and> shape activation = B # 0 # A # sp"
    using update_routing_closed[OF assms N(2), of leaky visual] a N(1) by auto
qed

theorem update_routing_no_validation_witness:
  "routing_inputs (Tensor [1, 1, 2, 1] [Fin 1, Fin 2]) (Tensor [2, 1] [Fin 0, Fin 0])
     [1, 1, 2] 4 1 2 1 1 [] \<and>
   update_routing (Tensor [1, 1, 2, 1] [Fin 1, Fin 2]) (Tensor [2, 1] [Fin 0, Fin 0])
     [1, 1, 2] 4 1 2 False 0 [] = Inl TensorArrayError \<and>
   routing_inputs (Tensor [1, 1, 0, 1] []) (Tensor [0, 1] []) [1, 1, 0] 4 1 0 1 1 [] \<and>
   (\<exists>activation visual'.
      update_routing (Tensor [1, 1, 0, 1] []) (Tensor [0, 1] []) [1, 1, 0] 4 1 0 True 1 []
        = Inr (activation, visual') \<and>
      shape activation = [1, 0, 1])"
proof -
  let ?v = "Tensor [1, 1, 2, 1] [Fin 1, Fin 2]" and ?b = "Tensor [2, 1] [Fin 0, Fin 0]"
  have h: "routing_inputs ?v ?b [1, 1, 2] 4 1 2 1 1 []"
    by (simp add: routing_inputs_def well_formed_def)
  have g: "routing_inputs (Tensor [1, 1, 0, 1] []) (Tensor [0, 1] []) [1, 1, 0] 4 1 0 1 1 []"
    by (simp add: routing_inputs_def well_formed_def)
  from update_routing_no_validation[OF h, of 0 False "[]"]
  have a: "update_routing ?v ?b [1, 1, 2] 4 1 2 False 0 [] = Inl TensorArrayError" by simp
  from update_routing_no_validation[OF g, of 1 True "[]"]
  have b: "\<exists>activation visual'.
      update_routing (Tensor [1, 1, 0, 1] []) (Tensor [0, 1] []) [1, 1, 0] 4 1 0 True 1 []
        = Inr (activation, visual') \<and> shape activation = [1, 0, 1]" by simp
  from a b h g show ?thesis by blast
qed

lemma agreement_at_Cons:
  "agreement_at v act A (b # i # j # s)
     = fsum (map (\<lambda>a. fmul (v (b # i # j # a # s)) (act (b # j # a # s))) [0..<A])"
  by (simp add: agreement_at_def insert_at_def remove_at_def numeral_eq_Suc)



lemma fsum_ones: "fsum (map (\<lambda>k. Fin 1) [0..<J]) = Fin (real J)"
  using fsum_Fin[of "\<lambda>k. 1" "[0..<J]"] by (simp add: sum_list_triv)

lemma route_at_zero:
  "0 < J \<Longrightarrow> route_at lk (\<lambda>idx. Fin 0) J idx = Fin (1 / real (if lk then J + 1 else J))"
  by (simp add: route_at_def leaky_at_def softmax_at_def fsum_ones add.commute)

lemma vec_norm_cong: "(\<And>k. k < n \<Longrightarrow> f k = g k) \<Longrightarrow> vec_norm f n = vec_norm g n"
  unfolding vec_norm_def by (intro arg_cong[where f = fsqrt] fsum_map_cong) simp

lemma activation_at_cong:
  assumes "valid_index sh idx" "2 < length sh" "sh ! 2 = A"
    and "\<And>i. valid_index sh i \<Longrightarrow> p i = q i"
  shows "activation_at p A idx = activation_at q A idx"
proof -
  have "p (idx[2 := k]) = q (idx[2 := k])" if "k < A" for k
    using assms(4)[OF valid_index_update_same[OF assms(1,2)]] that assms(3) by simp
  then have "vec_norm (\<lambda>k. p (idx[2 := k])) A = vec_norm (\<lambda>k. q (idx[2 := k])) A"
    by (rule vec_norm_cong)
  then show ?thesis using assms(4)[OF assms(1)] by (simp add: activation_at_def)
qed



lemma exp_sum_pos:
  fixes r :: "nat \<Rightarrow> real"
  shows "0 < J \<Longrightarrow> 0 < sum_list (map (\<lambda>k. exp (r k)) [0..<J])"
proof (induction J)
  case 0
  then show ?case by simp
next
  case (Suc J)
  have "0 \<le> sum_list (map (\<lambda>k. exp (r k)) [0..<J])"
    by (rule sum_list_nonneg) auto
  moreover have "0 < exp (r J)" by simp
  ultimately have "0 < sum_list (map (\<lambda>k. exp (r k)) [0..<J]) + exp (r J)"
    by (rule add_nonneg_pos)
  then show ?case by simp
qed

lemma sum_list_divide:
  fixes f :: "nat \<Rightarrow> real"
  shows "sum_list (map (\<lambda>k. f k / c) xs) = sum_list (map f xs) / c"
  by (induction xs) (simp_all add: add_divide_distrib)

lemma softmax_at_Fin:
  assumes "\<And>k. k < J \<Longrightarrow> lg (idx[2 := k]) = Fin (r k)" "k < J"
  shows "softmax_at lg J (idx[2 := k])
     = Fin (exp (r k) / sum_list (map (\<lambda>k. exp (r k)) [0..<J]))"
    and "leaky_at lg J (idx[2 := k])
     = Fin (exp (r k) / (1 + sum_list (map (\<lambda>k. exp (r k)) [0..<J])))"
proof -
  let ?S = "sum_list (map (\<lambda>k. exp (r k)) [0..<J])"
  have "fsum (map (\<lambda>k. fexp (lg (idx[2 := k]))) [0..<J]) = fsum (map (\<lambda>k. Fin (exp (r k))) [0..<J])"
    by (rule fsum_map_cong) (simp add: assms(1))
  then have den: "fsum (map (\<lambda>k. fexp (lg (idx[2 := k]))) [0..<J]) = Fin ?S"
    by (simp add: fsum_Fin)
  have pos: "0 < ?S" using assms(2) by (intro exp_sum_pos) simp
  show "softmax_at lg J (idx[2 := k]) = Fin (exp (r k) / ?S)"
    using pos by (simp add: softmax_at_def den assms)
  show "leaky_at lg J (idx[2 := k]) = Fin (exp (r k) / (1 + ?S))"
    using pos by (simp add: leaky_at_def den assms)
qed



end
